theory Spec2Isabelle
  imports Main
begin

section \<open>Land-plot allocation among four developers\<close>

text \<open>
  The repository holds three algorithms that split an \<open>n \<times> m\<close> matrix of plot costs
  among four developers: exhaustive search (\<open>brute_force.py\<close>), a greedy builder
  (\<open>greedy.py\<close>) and a two-stage local search (\<open>two_stage.py\<close>). Each is embedded
  below as the source has it. Console output is left out; it does not influence
  control flow.
\<close>

subsection \<open>Data model\<close>

text \<open>
  A cell is a Python tuple \<open>(i, j)\<close> of unbounded integers, a matrix is a list of rows,
  a partition is a list of four regions (lists of cells) and the running sums are a
  list of four integers.
\<close>

type_synonym cell = "int \<times> int"
type_synonym matrix = "int list list"
type_synonym regions = "cell list list"

text \<open>
  Python indexing \<open>xs[i]\<close>: a negative index counts from the end, an index out of
  range raises \<open>IndexError\<close>, which is the value \<open>None\<close> here.
\<close>

definition py_get :: "'a list \<Rightarrow> int \<Rightarrow> 'a option" where
  "py_get xs i =
     (let len = int (length xs); k = (if i < 0 then len + i else i)
      in if 0 \<le> k \<and> k < len then Some (xs ! nat k) else None)"

text \<open>Python item assignment \<open>xs[i] = v\<close>, with the same reading of the index.\<close>

definition py_set :: "'a list \<Rightarrow> int \<Rightarrow> 'a \<Rightarrow> 'a list option" where
  "py_set xs i v =
     (let len = int (length xs); k = (if i < 0 then len + i else i)
      in if 0 \<le> k \<and> k < len then Some (xs[nat k := v]) else None)"

text \<open>\<open>matrix[i][j]\<close>\<close>

definition cell_value :: "matrix \<Rightarrow> cell \<Rightarrow> int option" where
  "cell_value mat c =
     (case py_get mat (fst c) of
        None \<Rightarrow> None
      | Some row \<Rightarrow> py_get row (snd c))"

text \<open>
  The inner loop \<open>for i, j in regions[dev]: sums[dev] += matrix[i][j]\<close>, started from
  the accumulator \<open>acc\<close>.
\<close>

fun add_cells :: "matrix \<Rightarrow> cell list \<Rightarrow> int \<Rightarrow> int option" where
  "add_cells mat [] acc = Some acc"
| "add_cells mat (c # cs) acc =
     (case cell_value mat c of
        None \<Rightarrow> None
      | Some v \<Rightarrow> add_cells mat cs (acc + v))"

text \<open>
  The outer loop \<open>for dev in range(4)\<close> over \<open>sums = [0, 0, 0, 0]\<close>. Every caller
  passes a list of four regions.
\<close>

definition region_sums :: "matrix \<Rightarrow> regions \<Rightarrow> int list option" where
  "region_sums mat rs =
     (case add_cells mat (rs ! 0) 0 of None \<Rightarrow> None | Some s0 \<Rightarrow>
      case add_cells mat (rs ! 1) 0 of None \<Rightarrow> None | Some s1 \<Rightarrow>
      case add_cells mat (rs ! 2) 0 of None \<Rightarrow> None | Some s2 \<Rightarrow>
      case add_cells mat (rs ! 3) 0 of None \<Rightarrow> None | Some s3 \<Rightarrow>
      Some [s0, s1, s2, s3])"

text \<open>\<open>max(sums) - min(sums)\<close> (\<open>calculate_imbalance\<close> in \<open>greedy.py\<close>)\<close>

definition calculate_imbalance :: "int list \<Rightarrow> int" where
  "calculate_imbalance sums = Max (set sums) - Min (set sums)"

text \<open>The four directions: up, down, left, right.\<close>

definition directions :: "(int \<times> int) list" where
  "directions = [(-1, 0), (1, 0), (0, -1), (0, 1)]"

text \<open>The test \<open>0 <= ni < n and 0 <= nj < m\<close>.\<close>

definition in_bounds :: "nat \<Rightarrow> nat \<Rightarrow> cell \<Rightarrow> bool" where
  "in_bounds n m c \<longleftrightarrow> 0 \<le> fst c \<and> fst c < int n \<and> 0 \<le> snd c \<and> snd c < int m"

subsection \<open>Exhaustive search (\<open>brute_force.py\<close>)\<close>

text \<open>
  \<open>itertools.product(range(4), repeat=k)\<close>: all label tuples of length \<open>k\<close> in
  lexicographic order, the last position changing fastest.
\<close>

fun product_labels :: "nat \<Rightarrow> nat list list" where
  "product_labels 0 = [[]]"
| "product_labels (Suc k) =
     concat (map (\<lambda>d. map (\<lambda>ls. d # ls) (product_labels k)) [0, 1, 2, 3])"

text \<open>\<open>labels_to_regions\<close>: cell \<open>idx\<close> is \<open>(idx // m, idx % m)\<close>.\<close>

definition cell_of_index :: "nat \<Rightarrow> nat \<Rightarrow> cell" where
  "cell_of_index m idx = (int (idx div m), int (idx mod m))"

definition labels_to_regions :: "nat list \<Rightarrow> nat \<Rightarrow> nat \<Rightarrow> regions" where
  "labels_to_regions labels n m =
     fold (\<lambda>(idx, dev) rs. rs[dev := rs ! dev @ [cell_of_index m idx]])
       (enumerate 0 labels) [[], [], [], []]"

text \<open>
  One pass of the \<open>for di, dj in directions\<close> loop of \<open>check_connected\<close> for the cell
  \<open>(i, j)\<close> just taken from the queue: the state is the visited set and the queue.
\<close>

definition visit_step ::
  "cell set \<Rightarrow> nat \<Rightarrow> nat \<Rightarrow> cell \<Rightarrow> int \<times> int \<Rightarrow> cell set \<times> cell list \<Rightarrow> cell set \<times> cell list"
where
  "visit_step region_set n m c d st =
     (let nb = (fst c + fst d, snd c + snd d)
      in if in_bounds n m nb \<and> nb \<in> region_set \<and> nb \<notin> fst st
         then (insert nb (fst st), snd st @ [nb])
         else st)"

definition visit_neighbours ::
  "cell set \<Rightarrow> nat \<Rightarrow> nat \<Rightarrow> cell \<Rightarrow> cell set \<times> cell list \<Rightarrow> cell set \<times> cell list"
where
  "visit_neighbours region_set n m c st = fold (visit_step region_set n m c) directions st"

text \<open>
  The \<open>while queue\<close> loop of \<open>check_connected\<close>: \<open>popleft\<close> takes the head of the
  queue, new cells are appended at its end.
\<close>

lemma finite_in_bounds: "finite {c. in_bounds n m c}"
proof -
  have "{c. in_bounds n m c} \<subseteq> {0..<int n} \<times> {0..<int m}"
    by (auto simp: in_bounds_def)
  then show ?thesis
    by (rule finite_subset) simp
qed

lemma visit_step_measure:
  "2 * card ({c. in_bounds n m c} - fst (visit_step rs n m c d st)) + length (snd (visit_step rs n m c d st))
     \<le> 2 * card ({c. in_bounds n m c} - fst st) + length (snd st)"
proof -
  let ?G = "{c. in_bounds n m c}"
  let ?nb = "(fst c + fst d, snd c + snd d)"
  show ?thesis
  proof (cases "in_bounds n m ?nb \<and> ?nb \<in> rs \<and> ?nb \<notin> fst st")
    case True
    then have in_diff: "?nb \<in> ?G - fst st" by simp
    have fin: "finite (?G - fst st)" using finite_in_bounds by simp
    have "?G - insert ?nb (fst st) = (?G - fst st) - {?nb}" by auto
    then have "card (?G - insert ?nb (fst st)) = card (?G - fst st) - 1"
      using in_diff fin by simp
    moreover have "card (?G - fst st) > 0"
      using in_diff fin card_gt_0_iff by blast
    ultimately show ?thesis using True
      by (simp add: visit_step_def Let_def)
  next
    case False
    then show ?thesis by (auto simp: visit_step_def Let_def)
  qed
qed

lemma visit_neighbours_measure:
  "2 * card ({c. in_bounds n m c} - fst (visit_neighbours rs n m c st)) + length (snd (visit_neighbours rs n m c st))
     \<le> 2 * card ({c. in_bounds n m c} - fst st) + length (snd st)"
proof -
  have "2 * card ({c. in_bounds n m c} - fst (fold (visit_step rs n m c) ds st))
          + length (snd (fold (visit_step rs n m c) ds st))
        \<le> 2 * card ({c. in_bounds n m c} - fst st) + length (snd st)" for ds
  proof (induction ds arbitrary: st)
    case Nil
    show ?case by simp
  next
    case (Cons d ds)
    show ?case
      using Cons.IH [of "visit_step rs n m c d st"] visit_step_measure [of n m rs c d st]
      by simp
  qed
  then show ?thesis by (simp add: visit_neighbours_def)
qed

function bfs_loop :: "cell set \<Rightarrow> nat \<Rightarrow> nat \<Rightarrow> cell set \<Rightarrow> cell list \<Rightarrow> cell set" where
  "bfs_loop region_set n m visited [] = visited"
| "bfs_loop region_set n m visited (c # queue) =
     bfs_loop region_set n m
       (fst (visit_neighbours region_set n m c (visited, queue)))
       (snd (visit_neighbours region_set n m c (visited, queue)))"
  by pat_completeness auto
termination
proof (relation "measure (\<lambda>(rs, n, m, v, q). 2 * card ({c. in_bounds n m c} - v) + length q)")
  show "wf (measure (\<lambda>(rs, n, m, v, q). 2 * card ({c. in_bounds n m c} - v) + length q))"
    by simp
next
  fix region_set :: "cell set" and n m :: nat and visited :: "cell set" and c :: cell
    and queue :: "cell list"
  show "((region_set, n, m, fst (visit_neighbours region_set n m c (visited, queue)),
          snd (visit_neighbours region_set n m c (visited, queue))),
         (region_set, n, m, visited, c # queue))
        \<in> measure (\<lambda>(rs, n, m, v, q). 2 * card ({c. in_bounds n m c} - v) + length q)"
    using visit_neighbours_measure [of n m region_set c "(visited, queue)"]
    by (simp add: case_prod_beta)
qed

text \<open>
  \<open>check_connected\<close>: a region of at most one cell is connected; otherwise the search
  starts at the first cell and the region is connected when every cell was visited.
\<close>

definition check_connected :: "cell list \<Rightarrow> nat \<Rightarrow> nat \<Rightarrow> bool" where
  "check_connected region_coords n m =
     (if length region_coords \<le> 1 then True
      else card (bfs_loop (set region_coords) n m {hd region_coords} [hd region_coords])
             = length region_coords)"

text \<open>\<open>all_regions_connected\<close>\<close>

definition all_regions_connected :: "regions \<Rightarrow> nat \<Rightarrow> nat \<Rightarrow> bool" where
  "all_regions_connected rs n m \<longleftrightarrow>
     (\<forall>region \<in> set rs. \<not> (length region > 0 \<and> \<not> check_connected region n m))"

text \<open>\<open>calculate_objective_value\<close>\<close>

definition calculate_objective_value :: "matrix \<Rightarrow> regions \<Rightarrow> int option" where
  "calculate_objective_value mat rs = map_option calculate_imbalance (region_sums mat rs)"

text \<open>
  The state of the enumeration loop of \<open>brute_force_allocation\<close>. \<open>best_objective\<close>
  starts as \<open>float("inf")\<close>, which is \<open>None\<close> here: every integer is below it.
\<close>

record bf_state =
  best_regions :: "regions option"
  best_objective :: "int option"
  combinations_checked :: nat

definition below_best :: "int \<Rightarrow> int option \<Rightarrow> bool" where
  "below_best v best = (case best of None \<Rightarrow> True | Some b \<Rightarrow> v < b)"

text \<open>The body of the loop for one label tuple.\<close>

definition bf_step :: "matrix \<Rightarrow> nat \<Rightarrow> nat \<Rightarrow> bf_state \<Rightarrow> nat list \<Rightarrow> bf_state option" where
  "bf_step mat n m st labels =
     (let st1 = st\<lparr>combinations_checked := combinations_checked st + 1\<rparr>;
          rs = labels_to_regions labels n m
      in if \<exists>region \<in> set rs. length region = 0 then Some st1
         else if \<not> all_regions_connected rs n m then Some st1
         else case calculate_objective_value mat rs of
                None \<Rightarrow> None
              | Some objective_value \<Rightarrow>
                  if below_best objective_value (best_objective st1)
                  then Some (st1\<lparr>best_objective := Some objective_value, best_regions := Some rs\<rparr>)
                  else Some st1)"

fun bf_loop :: "matrix \<Rightarrow> nat \<Rightarrow> nat \<Rightarrow> nat list list \<Rightarrow> bf_state \<Rightarrow> bf_state option" where
  "bf_loop mat n m [] st = Some st"
| "bf_loop mat n m (labels # rest) st =
     (case bf_step mat n m st labels of
        None \<Rightarrow> None
      | Some st' \<Rightarrow> bf_loop mat n m rest st')"

text \<open>
  \<open>brute_force_allocation\<close>: the result is the pair of the regions and the number of
  combinations checked; \<open>None\<close> is an \<open>IndexError\<close> raised on the way.
\<close>

definition brute_force_allocation :: "matrix \<Rightarrow> (regions \<times> nat) option" where
  "brute_force_allocation mat =
     (case mat of
        [] \<Rightarrow> Some ([[], [], [], []], 0)
      | row0 # _ \<Rightarrow>
          if row0 = [] then Some ([[], [], [], []], 0)
          else
            let n = length mat; m = length row0; total_cells = n * m
            in if total_cells > 16 then Some ([[], [], [], []], 0)
               else
                 case bf_loop mat n m (product_labels total_cells)
                        \<lparr>best_regions = None, best_objective = None, combinations_checked = 0\<rparr> of
                   None \<Rightarrow> None
                 | Some st \<Rightarrow>
                     (case best_regions st of
                        None \<Rightarrow> Some ([[], [], [], []], combinations_checked st)
                      | Some rs \<Rightarrow> Some (rs, combinations_checked st)))"

subsection \<open>Python sets and small helpers\<close>

text \<open>
  \<open>greedy.py\<close> and \<open>two_stage.py\<close> collect cells in a Python \<open>set\<close> and turn it into
  a list with \<open>list(...)\<close>. The order of that list is fixed by the interpreter's hash
  table, not by the program, so it is a parameter of the model: a function from the
  sequence of insertions to the resulting list. What Python guarantees is that the
  list holds every inserted cell exactly once.
\<close>

type_synonym set_order = "cell list \<Rightarrow> cell list"

definition order_ok :: "set_order \<Rightarrow> bool" where
  "order_ok ord \<longleftrightarrow> (\<forall>xs. set (ord xs) = set xs \<and> distinct (ord xs))"

text \<open>A loop whose body may raise: the first \<open>None\<close> ends it.\<close>

fun fold_opt :: "('a \<Rightarrow> 's \<Rightarrow> 's option) \<Rightarrow> 'a list \<Rightarrow> 's \<Rightarrow> 's option" where
  "fold_opt f [] s = Some s"
| "fold_opt f (x # xs) s = (case f x s of None \<Rightarrow> None | Some s' \<Rightarrow> fold_opt f xs s')"

text \<open>\<open>xs.index(x)\<close>: the first position of \<open>x\<close>, \<open>ValueError\<close> when it is absent.\<close>

fun py_index :: "'a list \<Rightarrow> 'a \<Rightarrow> nat option" where
  "py_index [] x = None"
| "py_index (y # ys) x = (if y = x then Some 0 else map_option Suc (py_index ys x))"

text \<open>\<open>xs.remove(x)\<close>: drops the first occurrence, \<open>ValueError\<close> when there is none.\<close>

definition py_remove :: "'a list \<Rightarrow> 'a \<Rightarrow> 'a list option" where
  "py_remove xs x = (if x \<in> set xs then Some (remove1 x xs) else None)"

subsection \<open>Greedy builder (\<open>greedy.py\<close>)\<close>

text \<open>The local variables of \<open>greedy_allocation\<close>.\<close>

record greedy_state =
  g_regions :: regions
  g_sums :: "int list"
  g_assigned :: "bool list list"
  allocation_iter_count :: nat
  total_assigned :: nat

text \<open>
  \<open>assigned[i][j]\<close> and \<open>assigned[i][j] = True\<close>. The matrix \<open>assigned\<close> is built with
  \<open>n\<close> rows of \<open>m\<close> entries, it is read only behind the bounds test and written only
  at a seed corner or at a cell that passed the bounds test.
\<close>

definition is_assigned :: "bool list list \<Rightarrow> cell \<Rightarrow> bool" where
  "is_assigned a c = a ! nat (fst c) ! nat (snd c)"

definition mark_assigned :: "bool list list \<Rightarrow> cell \<Rightarrow> bool list list" where
  "mark_assigned a c = a[nat (fst c) := (a ! nat (fst c))[nat (snd c) := True]]"

text \<open>\<open>start_positions\<close>: the four corners.\<close>

definition start_positions :: "nat \<Rightarrow> nat \<Rightarrow> cell list" where
  "start_positions n m = [(0, 0), (0, int m - 1), (int n - 1, 0), (int n - 1, int m - 1)]"

text \<open>The body of the seeding loop \<open>for dev in range(4)\<close>.\<close>

definition seed_step :: "matrix \<Rightarrow> nat \<Rightarrow> nat \<Rightarrow> nat \<Rightarrow> greedy_state \<Rightarrow> greedy_state option" where
  "seed_step mat n m dev st =
     (let c = start_positions n m ! dev
      in case cell_value mat c of
           None \<Rightarrow> None
         | Some v \<Rightarrow>
             Some (st\<lparr>g_regions := (g_regions st)[dev := g_regions st ! dev @ [c]],
                      g_sums := (g_sums st)[dev := g_sums st ! dev + v],
                      g_assigned := mark_assigned (g_assigned st) c\<rparr>))"

text \<open>\<open>get_developer_with_min_sum\<close>: \<open>sums.index(min(sums))\<close>\<close>

definition get_developer_with_min_sum :: "int list \<Rightarrow> nat option" where
  "get_developer_with_min_sum sums = (if sums = [] then None else py_index sums (Min (set sums)))"

text \<open>
  \<open>get_adjacent_free_cells\<close>: the free in-bounds neighbours of the cells of a region,
  in the order in which they are added to the set.
\<close>

definition free_neighbours :: "bool list list \<Rightarrow> nat \<Rightarrow> nat \<Rightarrow> cell \<Rightarrow> cell list" where
  "free_neighbours a n m c =
     filter (\<lambda>nb. in_bounds n m nb \<and> \<not> is_assigned a nb)
       (map (\<lambda>d. (fst c + fst d, snd c + snd d)) directions)"

definition get_adjacent_free_cells ::
  "set_order \<Rightarrow> cell list \<Rightarrow> bool list list \<Rightarrow> nat \<Rightarrow> nat \<Rightarrow> cell list"
where
  "get_adjacent_free_cells ord region a n m = ord (concat (map (free_neighbours a n m) region))"

text \<open>
  \<open>find_developer_with_adjacent_cells\<close>: the first developer of \<open>devs\<close> with a free
  neighbour, \<open>(-1, [])\<close> when there is none; the source runs it on \<open>range(4)\<close>.
\<close>

fun find_developer_from ::
  "set_order \<Rightarrow> regions \<Rightarrow> bool list list \<Rightarrow> nat \<Rightarrow> nat \<Rightarrow> nat list \<Rightarrow> int \<times> cell list"
where
  "find_developer_from ord rs a n m [] = (-1, [])"
| "find_developer_from ord rs a n m (dev # devs) =
     (let adjacent_cells = get_adjacent_free_cells ord (rs ! dev) a n m
      in if adjacent_cells \<noteq> [] then (int dev, adjacent_cells)
         else find_developer_from ord rs a n m devs)"

definition find_developer_with_adjacent_cells ::
  "set_order \<Rightarrow> regions \<Rightarrow> bool list list \<Rightarrow> nat \<Rightarrow> nat \<Rightarrow> int \<times> cell list"
where
  "find_developer_with_adjacent_cells ord rs a n m = find_developer_from ord rs a n m [0, 1, 2, 3]"

text \<open>
  \<open>choose_best_cell\<close>. The loop state is \<open>(best_cell, min_imbalance)\<close>, with \<open>None\<close> for
  Python's \<open>None\<close> and for \<open>float("inf")\<close>. A cell is a pair, so \<open>best_cell\<close> is true
  as soon as it is set.
  The line \<open>temp_sums[target_dev] += matrix[i][j]\<close> reads \<open>temp_sums[target_dev]\<close>,
  then \<open>matrix[i][j]\<close>, and writes the sum back; \<open>target_dev\<close> is indexed the Python
  way, so \<open>-1\<close> is the last sum and an index out of range raises \<open>IndexError\<close>.
\<close>

definition choose_step ::
  "matrix \<Rightarrow> int list \<Rightarrow> int \<Rightarrow> cell \<Rightarrow> cell option \<times> int option \<Rightarrow> (cell option \<times> int option) option"
where
  "choose_step mat sums target_dev c st =
     (case py_get sums target_dev of
        None \<Rightarrow> None
      | Some s \<Rightarrow>
          (case cell_value mat c of
             None \<Rightarrow> None
           | Some v \<Rightarrow>
               (case py_set sums target_dev (s + v) of
                  None \<Rightarrow> None
                | Some temp_sums \<Rightarrow>
                    (let imbalance = calculate_imbalance temp_sums
                     in if below_best imbalance (snd st) then Some (Some c, Some imbalance)
                        else Some st))))"

definition choose_best_cell :: "cell list \<Rightarrow> matrix \<Rightarrow> int list \<Rightarrow> int \<Rightarrow> cell option" where
  "choose_best_cell adjacent_cells mat sums target_dev =
     (if length adjacent_cells = 1 then Some (adjacent_cells ! 0)
      else case fold_opt (choose_step mat sums target_dev) adjacent_cells (None, None) of
             None \<Rightarrow> None
           | Some (best_cell, _) \<Rightarrow>
               (case best_cell of
                  Some c \<Rightarrow> Some c
                | None \<Rightarrow> (case adjacent_cells of [] \<Rightarrow> None | c # _ \<Rightarrow> Some c)))"

text \<open>
  One iteration of the main loop: it either leaves the loop through \<open>break\<close> or
  assigns one cell and goes on.
\<close>

datatype 'a outcome = Break 'a | Continue 'a

text \<open>
  The end of the loop body: \<open>choose_best_cell\<close> and the assignment of the chosen cell
  to \<open>target_dev\<close>.
\<close>

definition assign_best_cell ::
  "matrix \<Rightarrow> greedy_state \<Rightarrow> int \<Rightarrow> cell list \<Rightarrow> greedy_state outcome option"
where
  "assign_best_cell mat st target_dev adjacent_cells =
     (case choose_best_cell adjacent_cells mat (g_sums st) target_dev of
        None \<Rightarrow> None
      | Some best_cell \<Rightarrow>
          (case cell_value mat best_cell of
             None \<Rightarrow> None
           | Some v \<Rightarrow>
               Some (Continue (st\<lparr>
                 g_regions := (g_regions st)[nat target_dev :=
                                g_regions st ! nat target_dev @ [best_cell]],
                 g_sums := (g_sums st)[nat target_dev := g_sums st ! nat target_dev + v],
                 g_assigned := mark_assigned (g_assigned st) best_cell,
                 total_assigned := total_assigned st + 1\<rparr>))))"

definition greedy_step ::
  "set_order \<Rightarrow> matrix \<Rightarrow> nat \<Rightarrow> nat \<Rightarrow> greedy_state \<Rightarrow> greedy_state outcome option"
where
  "greedy_step ord mat n m st =
     (let st1 = st\<lparr>allocation_iter_count := allocation_iter_count st + 1\<rparr>
      in case get_developer_with_min_sum (g_sums st1) of
           None \<Rightarrow> None
         | Some min_dev \<Rightarrow>
             (let adjacent_cells =
                    get_adjacent_free_cells ord (g_regions st1 ! min_dev) (g_assigned st1) n m
              in if adjacent_cells = []
                 then (let found = find_developer_with_adjacent_cells ord (g_regions st1)
                                     (g_assigned st1) n m;
                           target_dev = fst found;
                           adjacent_cells = snd found
                       in if target_dev = -1 \<or> adjacent_cells = [] then Some (Break st1)
                          else assign_best_cell mat st1 target_dev adjacent_cells)
                 else assign_best_cell mat st1 (int min_dev) adjacent_cells))"

lemma greedy_step_total:
  "greedy_step ord mat n m st = Some (Continue st') \<Longrightarrow> total_assigned st' = total_assigned st + 1"
  by (auto simp: greedy_step_def assign_best_cell_def Let_def split: option.splits if_splits)

text \<open>The loop \<open>while total_assigned < total_cells\<close>.\<close>

function greedy_loop ::
  "set_order \<Rightarrow> matrix \<Rightarrow> nat \<Rightarrow> nat \<Rightarrow> greedy_state \<Rightarrow> greedy_state option"
where
  "greedy_loop ord mat n m st =
     (if total_assigned st < n * m
      then case greedy_step ord mat n m st of
             None \<Rightarrow> None
           | Some (Break st') \<Rightarrow> Some st'
           | Some (Continue st') \<Rightarrow> greedy_loop ord mat n m st'
      else Some st)"
  by pat_completeness auto
termination
proof (relation "measure (\<lambda>(ord, mat, n, m, st). n * m - total_assigned st)")
  show "wf (measure (\<lambda>(ord, mat, n, m, st). n * m - total_assigned st))"
    by simp
next
  fix ord :: set_order and mat :: matrix and n m :: nat and st st' :: greedy_state
    and r :: "greedy_state outcome"
  assume "total_assigned st < n * m" and "greedy_step ord mat n m st = Some r"
    and "r = Continue st'"
  then show "((ord, mat, n, m, st'), (ord, mat, n, m, st))
               \<in> measure (\<lambda>(ord, mat, n, m, st). n * m - total_assigned st)"
    using greedy_step_total [of ord mat n m st st'] by simp
qed

text \<open>
  \<open>greedy_allocation\<close>: the regions and the number of iterations; \<open>None\<close> is an
  exception raised on the way.
\<close>

definition greedy_init :: "nat \<Rightarrow> nat \<Rightarrow> greedy_state" where
  "greedy_init n m =
     \<lparr>g_regions = [[], [], [], []], g_sums = [0, 0, 0, 0],
      g_assigned = replicate n (replicate m False),
      allocation_iter_count = 0, total_assigned = 0\<rparr>"

definition greedy_allocation :: "set_order \<Rightarrow> matrix \<Rightarrow> (regions \<times> nat) option" where
  "greedy_allocation ord mat =
     (case mat of
        [] \<Rightarrow> Some ([[], [], [], []], 0)
      | row0 # _ \<Rightarrow>
          if row0 = [] then Some ([[], [], [], []], 0)
          else
            let n = length mat; m = length row0
            in case fold_opt (seed_step mat n m) [0, 1, 2, 3] (greedy_init n m) of
                 None \<Rightarrow> None
               | Some seeded \<Rightarrow>
                   (case greedy_loop ord mat n m (seeded\<lparr>total_assigned := 4\<rparr>) of
                      None \<Rightarrow> None
                    | Some st \<Rightarrow> Some (g_regions st, allocation_iter_count st)))"

subsection \<open>Two-stage optimizer (\<open>two_stage.py\<close>)\<close>

text \<open>The cells of the grid in row-major order (\<open>all_cells\<close>).\<close>

definition grid_cells :: "nat \<Rightarrow> nat \<Rightarrow> cell list" where
  "grid_cells n m = concat (map (\<lambda>i. map (\<lambda>j. (int i, int j)) [0..<m]) [0..<n])"

text \<open>
  The loop of \<open>create_initial_allocation\<close>: the state is \<open>(regions, start_idx)\<close>; a
  slice \<open>all_cells[start_idx:end_idx]\<close> is cut off at the end of the list.
\<close>

definition initial_step ::
  "cell list \<Rightarrow> nat \<Rightarrow> nat \<Rightarrow> nat \<Rightarrow> regions \<times> nat \<Rightarrow> regions \<times> nat"
where
  "initial_step all_cells cells_per_region remainder dev st =
     (let region_size = cells_per_region + (if dev < remainder then 1 else 0);
          start_idx = snd st;
          end_idx = start_idx + region_size
      in ((fst st)[dev := take (end_idx - start_idx) (drop start_idx all_cells)], end_idx))"

definition initial_allocation :: "nat \<Rightarrow> nat \<Rightarrow> regions" where
  "initial_allocation n m =
     (let total_cells = n * m;
          all_cells = grid_cells n m;
          cells_per_region = total_cells div 4;
          remainder = total_cells mod 4
      in fst (fold (initial_step all_cells cells_per_region remainder) [0, 1, 2, 3]
                ([[], [], [], []], 0)))"

text \<open>\<open>create_initial_allocation\<close>: \<open>matrix[0]\<close> raises on an empty matrix.\<close>

definition create_initial_allocation :: "matrix \<Rightarrow> regions option" where
  "create_initial_allocation mat =
     (case mat of [] \<Rightarrow> None | row0 # _ \<Rightarrow> Some (initial_allocation (length mat) (length row0)))"

text \<open>
  \<open>find_boundary_cells\<close>: the cells of \<open>region1\<close> with an in-bounds neighbour in
  \<open>region2\<close>, then the cells of \<open>region2\<close> with one in \<open>region1\<close>, as they are added to
  the set.
\<close>

definition has_neighbour_in :: "nat \<Rightarrow> nat \<Rightarrow> cell set \<Rightarrow> cell \<Rightarrow> bool" where
  "has_neighbour_in n m other c \<longleftrightarrow>
     (\<exists>d \<in> set directions.
        in_bounds n m (fst c + fst d, snd c + snd d) \<and> (fst c + fst d, snd c + snd d) \<in> other)"

definition find_boundary_cells ::
  "set_order \<Rightarrow> cell list \<Rightarrow> cell list \<Rightarrow> nat \<Rightarrow> nat \<Rightarrow> cell list"
where
  "find_boundary_cells ord region1 region2 n m =
     ord (filter (has_neighbour_in n m (set region2)) region1
          @ filter (has_neighbour_in n m (set region1)) region2)"

text \<open>\<open>calculate_current_imbalance\<close>\<close>

definition calculate_current_imbalance :: "matrix \<Rightarrow> regions \<Rightarrow> int option" where
  "calculate_current_imbalance mat rs = map_option calculate_imbalance (region_sums mat rs)"

text \<open>\<open>simulate_move\<close>\<close>

definition simulate_move :: "matrix \<Rightarrow> regions \<Rightarrow> cell \<Rightarrow> nat \<Rightarrow> nat \<Rightarrow> int option" where
  "simulate_move mat rs c from_dev to_dev =
     (case region_sums mat rs of
        None \<Rightarrow> None
      | Some sums \<Rightarrow>
          (case cell_value mat c of
             None \<Rightarrow> None
           | Some v \<Rightarrow>
               (let sums1 = sums[from_dev := sums ! from_dev - v];
                    sums2 = sums1[to_dev := sums1 ! to_dev + v]
                in Some (calculate_imbalance sums2))))"

text \<open>
  The search of one iteration of \<open>optimize_boundaries\<close>; its state is
  \<open>(best_improvement, best_move)\<close>. \<open>dev_pairs\<close> lists the pairs \<open>(dev1, dev2)\<close> with
  \<open>dev1 \<noteq> dev2\<close> in the order of the two nested \<open>range(4)\<close> loops.
\<close>

type_synonym move = "cell \<times> nat \<times> nat"

definition dev_pairs :: "(nat \<times> nat) list" where
  "dev_pairs = concat (map (\<lambda>dev1. map (\<lambda>dev2. (dev1, dev2)) (filter (\<lambda>dev2. dev1 \<noteq> dev2) [0, 1, 2, 3])) [0, 1, 2, 3])"

definition cell_step ::
  "matrix \<Rightarrow> regions \<Rightarrow> int \<Rightarrow> nat \<Rightarrow> nat \<Rightarrow> cell \<Rightarrow> int \<times> move option \<Rightarrow> (int \<times> move option) option"
where
  "cell_step mat rs current_imbalance dev1 dev2 c st =
     (let from_dev = (if c \<in> set (rs ! dev1) then dev1 else dev2);
          to_dev = (if from_dev = dev1 then dev2 else dev1)
      in case simulate_move mat rs c from_dev to_dev of
           None \<Rightarrow> None
         | Some new_imbalance \<Rightarrow>
             (let improvement = current_imbalance - new_imbalance
              in if improvement > fst st then Some (improvement, Some (c, from_dev, to_dev))
                 else Some st))"

definition pair_step ::
  "set_order \<Rightarrow> matrix \<Rightarrow> regions \<Rightarrow> nat \<Rightarrow> nat \<Rightarrow> int \<Rightarrow> nat \<times> nat \<Rightarrow> int \<times> move option
     \<Rightarrow> (int \<times> move option) option"
where
  "pair_step ord mat rs n m current_imbalance p st =
     fold_opt (cell_step mat rs current_imbalance (fst p) (snd p))
       (find_boundary_cells ord (rs ! fst p) (rs ! snd p) n m) st"

definition find_best_move ::
  "set_order \<Rightarrow> matrix \<Rightarrow> regions \<Rightarrow> nat \<Rightarrow> nat \<Rightarrow> int \<Rightarrow> (int \<times> move option) option"
where
  "find_best_move ord mat rs n m current_imbalance =
     fold_opt (pair_step ord mat rs n m current_imbalance) dev_pairs (0, None)"

text \<open>
  \<open>regions[from_dev].remove(cell)\<close> and \<open>regions[to_dev].append(cell)\<close>
\<close>

definition apply_move :: "regions \<Rightarrow> move \<Rightarrow> regions option" where
  "apply_move rs mv =
     (case mv of (c, from_dev, to_dev) \<Rightarrow>
        (case py_remove (rs ! from_dev) c of
           None \<Rightarrow> None
         | Some shorter \<Rightarrow>
             (let rs1 = rs[from_dev := shorter]
              in Some (rs1[to_dev := rs1 ! to_dev @ [c]]))))"

text \<open>
  One iteration of the \<open>while\<close> loop of \<open>optimize_boundaries\<close>, up to the test of
  \<open>improvement_found\<close>: the new regions and whether a move was made.
\<close>

definition optimize_step ::
  "set_order \<Rightarrow> matrix \<Rightarrow> nat \<Rightarrow> nat \<Rightarrow> regions \<Rightarrow> (regions \<times> bool) option"
where
  "optimize_step ord mat n m rs =
     (case calculate_current_imbalance mat rs of
        None \<Rightarrow> None
      | Some current_imbalance \<Rightarrow>
          (case find_best_move ord mat rs n m current_imbalance of
             None \<Rightarrow> None
           | Some (_, best_move) \<Rightarrow>
               (case best_move of
                  None \<Rightarrow> Some (rs, False)
                | Some mv \<Rightarrow> map_option (\<lambda>rs'. (rs', True)) (apply_move rs mv))))"

text \<open>The loop \<open>while iterations < max_iterations\<close>.\<close>

function optimize_loop ::
  "set_order \<Rightarrow> matrix \<Rightarrow> nat \<Rightarrow> nat \<Rightarrow> int \<Rightarrow> regions \<Rightarrow> nat \<Rightarrow> (regions \<times> nat) option"
where
  "optimize_loop ord mat n m max_iterations rs iterations =
     (if int iterations < max_iterations
      then case optimize_step ord mat n m rs of
             None \<Rightarrow> None
           | Some (rs', improvement_found) \<Rightarrow>
               if \<not> improvement_found then Some (rs', iterations + 1)
               else optimize_loop ord mat n m max_iterations rs' (iterations + 1)
      else Some (rs, iterations))"
  by pat_completeness auto
termination
  by (relation "measure (\<lambda>(ord, mat, n, m, max_iterations, rs, iterations).
                  nat (max_iterations - int iterations))") auto

text \<open>\<open>optimize_boundaries\<close>: \<open>matrix[0]\<close> raises on an empty matrix.\<close>

definition optimize_boundaries ::
  "set_order \<Rightarrow> matrix \<Rightarrow> regions \<Rightarrow> int \<Rightarrow> (regions \<times> nat) option"
where
  "optimize_boundaries ord mat rs max_iterations =
     (case mat of
        [] \<Rightarrow> None
      | row0 # _ \<Rightarrow> optimize_loop ord mat (length mat) (length row0) max_iterations rs 0)"

text \<open>\<open>two_stage_allocation\<close>\<close>

definition two_stage_allocation :: "set_order \<Rightarrow> matrix \<Rightarrow> int \<Rightarrow> (regions \<times> nat) option" where
  "two_stage_allocation ord mat max_iterations =
     (case mat of
        [] \<Rightarrow> Some ([[], [], [], []], 0)
      | row0 # _ \<Rightarrow>
          if row0 = [] then Some ([[], [], [], []], 0)
          else case create_initial_allocation mat of
                 None \<Rightarrow> None
               | Some rs \<Rightarrow> optimize_boundaries ord mat rs max_iterations)"

section \<open>Well-formed inputs and region sums\<close>

text \<open>
  The algorithms are specified for rectangular matrices: \<open>n\<close> rows of \<open>m\<close> entries
  each. On such a matrix every read \<open>matrix[i][j]\<close> at an in-bounds cell succeeds
  with the entry \<open>cost\<close>, and the sum of a region of in-bounds cells is \<open>rsum\<close>.
\<close>

definition rect :: "matrix \<Rightarrow> nat \<Rightarrow> nat \<Rightarrow> bool" where
  "rect mat n m \<longleftrightarrow> length mat = n \<and> (\<forall>row \<in> set mat. length row = m)"

definition cost :: "matrix \<Rightarrow> cell \<Rightarrow> int" where
  "cost mat c = mat ! nat (fst c) ! nat (snd c)"

definition rsum :: "matrix \<Rightarrow> cell list \<Rightarrow> int" where
  "rsum mat r = sum_list (map (cost mat) r)"

definition wf_regions :: "nat \<Rightarrow> nat \<Rightarrow> regions \<Rightarrow> bool" where
  "wf_regions n m rs \<longleftrightarrow> length rs = 4 \<and> (\<forall>r \<in> set rs. \<forall>c \<in> set r. in_bounds n m c)"

lemma cell_value_in_bounds:
  assumes "rect mat n m" and "in_bounds n m c"
  shows "cell_value mat c = Some (cost mat c)"
proof -
  have i: "0 \<le> fst c" "fst c < int (length mat)" and j: "0 \<le> snd c" "snd c < int m"
    using assms by (auto simp: rect_def in_bounds_def)
  then have "nat (fst c) < length mat" by simp
  then have "length (mat ! nat (fst c)) = m"
    using assms(1) by (simp add: rect_def)
  then show ?thesis
    using i j by (simp add: cell_value_def py_get_def cost_def Let_def)
qed

lemma add_cells_in_bounds:
  assumes "rect mat n m" and "\<forall>c \<in> set cs. in_bounds n m c"
  shows "add_cells mat cs acc = Some (acc + rsum mat cs)"
  using assms(2)
proof (induction cs arbitrary: acc)
  case Nil
  show ?case by (simp add: rsum_def)
next
  case (Cons c cs)
  then have "cell_value mat c = Some (cost mat c)"
    using cell_value_in_bounds [OF assms(1)] by simp
  then show ?case using Cons by (simp add: rsum_def)
qed

lemma length4_cases:
  assumes "length rs = 4"
  obtains a b c d where "rs = [a, b, c, d]"
proof -
  from assms obtain a r1 where "rs = a # r1" "length r1 = 3" by (cases rs) auto
  moreover then obtain b r2 where "r1 = b # r2" "length r2 = 2" by (cases r1) auto
  moreover then obtain c r3 where "r2 = c # r3" "length r3 = 1" by (cases r2) auto
  moreover then obtain d where "r3 = [d]" by (cases r3) auto
  ultimately show ?thesis using that by simp
qed

lemma region_sums_wf:
  assumes "rect mat n m" and "wf_regions n m rs"
  shows "region_sums mat rs = Some (map (rsum mat) rs)"
proof -
  from assms(2) have len: "length rs = 4" by (simp add: wf_regions_def)
  then obtain a b c d where rs: "rs = [a, b, c, d]" by (rule length4_cases)
  have "\<forall>r \<in> set rs. add_cells mat r 0 = Some (rsum mat r)"
    using add_cells_in_bounds [OF assms(1)] assms(2) by (simp add: wf_regions_def)
  then show ?thesis
    by (simp add: rs region_sums_def)
qed

lemma wf_regions_nth:
  "wf_regions n m rs \<Longrightarrow> d < 4 \<Longrightarrow> c \<in> set (rs ! d) \<Longrightarrow> in_bounds n m c"
  by (auto simp: wf_regions_def)

section \<open>Degenerate inputs\<close>

text \<open>
  Claim C9. On an empty matrix or a matrix whose first row is empty, each of
  \<open>brute_force_allocation\<close>, \<open>greedy_allocation\<close> and \<open>two_stage_allocation\<close> returns four
  empty regions and the count 0, and raises nothing. On a matrix with more than 16
  cells \<open>brute_force_allocation\<close> returns four empty regions and the count 0 without
  enumerating anything.
\<close>

theorem degenerate_and_oversized_grids:
  "(mat = [] \<or> hd mat = [] \<longrightarrow>
      brute_force_allocation mat = Some ([[], [], [], []], 0) \<and>
      greedy_allocation ord mat = Some ([[], [], [], []], 0) \<and>
      two_stage_allocation ord mat max_iterations = Some ([[], [], [], []], 0)) \<and>
   (big \<noteq> [] \<and> length big * length (hd big) > 16 \<longrightarrow>
      brute_force_allocation big = Some ([[], [], [], []], 0))"
proof -
  have empty: "brute_force_allocation mat = Some ([[], [], [], []], 0) \<and>
      greedy_allocation ord mat = Some ([[], [], [], []], 0) \<and>
      two_stage_allocation ord mat max_iterations = Some ([[], [], [], []], 0)"
    if "mat = [] \<or> hd mat = []"
    using that
    by (cases mat)
       (simp_all add: brute_force_allocation_def greedy_allocation_def two_stage_allocation_def)
  have oversized: "brute_force_allocation big = Some ([[], [], [], []], 0)"
    if "big \<noteq> []" and "length big * length (hd big) > 16"
    using that
    by (cases big) (simp_all add: brute_force_allocation_def Let_def)
  show ?thesis using empty oversized by blast
qed

theorem degenerate_and_oversized_grids_witness:
  "brute_force_allocation [] = Some ([[], [], [], []], 0) \<and>
   greedy_allocation remdups [] = Some ([[], [], [], []], 0) \<and>
   two_stage_allocation remdups [] 100 = Some ([[], [], [], []], 0) \<and>
   brute_force_allocation (replicate 17 [1]) = Some ([[], [], [], []], 0)"
  using degenerate_and_oversized_grids [of "[]" remdups 100 "replicate 17 [1]"]
  by simp

section \<open>Two-stage optimizer: invariants of the refinement\<close>

lemma fold_opt_invariant:
  assumes "fold_opt f xs s = Some s'" and "P s"
    and "\<And>x s s'. x \<in> set xs \<Longrightarrow> P s \<Longrightarrow> f x s = Some s' \<Longrightarrow> P s'"
  shows "P s'"
  using assms
proof (induction xs arbitrary: s)
  case Nil
  then show ?case by simp
next
  case (Cons x xs)
  from Cons.prems(1) obtain s1 where s1: "f x s = Some s1" "fold_opt f xs s1 = Some s'"
    by (auto split: option.splits)
  have "P s1" using Cons.prems(3) [of x s s1] Cons.prems(2) s1 by simp
  moreover have "\<And>y t t'. y \<in> set xs \<Longrightarrow> P t \<Longrightarrow> f y t = Some t' \<Longrightarrow> P t'"
    using Cons.prems(3) by (meson list.set_intros(2))
  ultimately show ?case
    using Cons.IH [OF s1(2)] by blast
qed

lemma fold_opt_total:
  assumes "P s"
    and "\<And>x s. x \<in> set xs \<Longrightarrow> P s \<Longrightarrow> \<exists>s'. f x s = Some s' \<and> P s'"
  shows "\<exists>s'. fold_opt f xs s = Some s' \<and> P s'"
  using assms
proof (induction xs arbitrary: s)
  case Nil
  then show ?case by simp
next
  case (Cons x xs)
  from Cons.prems(2) [of x s] Cons.prems(1) obtain s1 where s1: "f x s = Some s1" "P s1"
    by auto
  have "\<exists>s'. fold_opt f xs s1 = Some s' \<and> P s'"
    using Cons.IH [OF s1(2)] Cons.prems(2) by simp
  then show ?case using s1 by simp
qed

definition imbalance :: "matrix \<Rightarrow> regions \<Rightarrow> int" where
  "imbalance mat rs = calculate_imbalance (map (rsum mat) rs)"

lemma calculate_current_imbalance_wf:
  "rect mat n m \<Longrightarrow> wf_regions n m rs \<Longrightarrow> calculate_current_imbalance mat rs = Some (imbalance mat rs)"
  by (simp add: calculate_current_imbalance_def imbalance_def region_sums_wf)

definition moved :: "regions \<Rightarrow> cell \<Rightarrow> nat \<Rightarrow> nat \<Rightarrow> regions" where
  "moved rs c f t = (rs[f := remove1 c (rs ! f)])[t := rs ! t @ [c]]"

lemma apply_move_moved:
  assumes "c \<in> set (rs ! f)" and "f \<noteq> t"
  shows "apply_move rs (c, f, t) = Some (moved rs c f t)"
  using assms by (simp add: apply_move_def py_remove_def moved_def Let_def)

lemma wf_regions_moved:
  assumes "wf_regions n m rs" and "c \<in> set (rs ! f)" and "f < 4" and "t < 4"
  shows "wf_regions n m (moved rs c f t)"
proof -
  have len: "length rs = 4" and inb: "\<And>d x. d < 4 \<Longrightarrow> x \<in> set (rs ! d) \<Longrightarrow> in_bounds n m x"
    using assms(1) by (auto simp: wf_regions_def)
  have "in_bounds n m x" if "r \<in> set (moved rs c f t)" and "x \<in> set r" for r x
  proof -
    from that(1) obtain d where d: "d < 4" "r = moved rs c f t ! d"
      using len by (auto simp: in_set_conv_nth moved_def)
    show ?thesis
    proof (cases "d = t")
      case True
      then have "r = rs ! t @ [c]" using d len assms by (simp add: moved_def)
      then show ?thesis using that(2) inb [of t x] inb [of f c] assms by auto
    next
      case False
      show ?thesis
      proof (cases "d = f")
        case True
        then have "r = remove1 c (rs ! f)" using d len assms \<open>d \<noteq> t\<close> by (simp add: moved_def)
        then show ?thesis using that(2) inb [of f x] assms by (auto dest: notin_set_remove1)
      next
        case False
        then have "r = rs ! d" using d len \<open>d \<noteq> t\<close> by (simp add: moved_def)
        then show ?thesis using that(2) inb [of d x] d by simp
      qed
    qed
  qed
  then show ?thesis using len by (simp add: wf_regions_def moved_def)
qed

lemma rsum_remove1:
  "c \<in> set r \<Longrightarrow> rsum mat (remove1 c r) = rsum mat r - cost mat c"
  using sum_list_map_remove1 [of c r "cost mat"] by (simp add: rsum_def)

lemma rsum_snoc: "rsum mat (r @ [c]) = rsum mat r + cost mat c"
  by (simp add: rsum_def)

lemma sums_moved:
  assumes "length rs = 4" and "c \<in> set (rs ! f)" and "f < 4" and "t < 4" and "f \<noteq> t"
  shows "map (rsum mat) (moved rs c f t) =
           ((map (rsum mat) rs)[f := map (rsum mat) rs ! f - cost mat c])
              [t := ((map (rsum mat) rs)[f := map (rsum mat) rs ! f - cost mat c]) ! t + cost mat c]"
  using assms rsum_remove1 [of c "rs ! f" mat] by (simp add: moved_def map_update rsum_snoc)

lemma simulate_move_wf:
  assumes "rect mat n m" and "wf_regions n m rs" and "c \<in> set (rs ! f)" and "f < 4" and "t < 4"
    and "f \<noteq> t"
  shows "simulate_move mat rs c f t = Some (imbalance mat (moved rs c f t))"
proof -
  have "in_bounds n m c" using assms by (auto simp: wf_regions_def)
  then have "cell_value mat c = Some (cost mat c)"
    using assms(1) by (rule cell_value_in_bounds [rotated])
  moreover have "length rs = 4" using assms(2) by (simp add: wf_regions_def)
  ultimately show ?thesis
    using assms region_sums_wf [OF assms(1,2)] sums_moved [of rs c f t mat]
    by (simp add: simulate_move_def imbalance_def Let_def)
qed

text \<open>
  What the search of one iteration keeps in \<open>(best_improvement, best_move)\<close>: no move
  and improvement 0, or a move of a cell out of the region that holds it, whose
  result has an imbalance lower by the recorded, positive improvement.
\<close>

definition move_ok :: "matrix \<Rightarrow> regions \<Rightarrow> int \<Rightarrow> int \<times> move option \<Rightarrow> bool" where
  "move_ok mat rs cur st \<longleftrightarrow>
     (case snd st of
        None \<Rightarrow> fst st = 0
      | Some (c, f, t) \<Rightarrow>
          0 < fst st \<and> f < 4 \<and> t < 4 \<and> f \<noteq> t \<and> c \<in> set (rs ! f) \<and>
          imbalance mat (moved rs c f t) = cur - fst st)"

lemma move_ok_nonneg: "move_ok mat rs cur st \<Longrightarrow> 0 \<le> fst st"
  by (auto simp: move_ok_def split: option.splits)

lemma cell_step_ok:
  assumes "rect mat n m" and "wf_regions n m rs" and "d1 < 4" and "d2 < 4" and "d1 \<noteq> d2"
    and "c \<in> set (rs ! d1) \<union> set (rs ! d2)" and "move_ok mat rs cur st"
  shows "\<exists>st'. cell_step mat rs cur d1 d2 c st = Some st' \<and> move_ok mat rs cur st'"
proof -
  define f where "f = (if c \<in> set (rs ! d1) then d1 else d2)"
  define t where "t = (if f = d1 then d2 else d1)"
  have f: "f < 4" "t < 4" "f \<noteq> t" "c \<in> set (rs ! f)"
    using assms(3-6) by (auto simp: f_def t_def)
  have sim: "simulate_move mat rs c f t = Some (imbalance mat (moved rs c f t))"
    using simulate_move_wf [OF assms(1,2) f(4,1,2,3)] .
  show ?thesis
  proof (cases "cur - imbalance mat (moved rs c f t) > fst st")
    case True
    then have "cell_step mat rs cur d1 d2 c st
                 = Some (cur - imbalance mat (moved rs c f t), Some (c, f, t))"
      using sim by (simp add: cell_step_def Let_def f_def [symmetric] t_def [symmetric])
    moreover have "move_ok mat rs cur (cur - imbalance mat (moved rs c f t), Some (c, f, t))"
      using True f move_ok_nonneg [OF assms(7)] by (simp add: move_ok_def)
    ultimately show ?thesis by simp
  next
    case False
    then have "cell_step mat rs cur d1 d2 c st = Some st"
      using sim by (simp add: cell_step_def Let_def f_def [symmetric] t_def [symmetric])
    then show ?thesis using assms(7) by simp
  qed
qed

lemma find_boundary_cells_subset:
  assumes "order_ok ord"
  shows "set (find_boundary_cells ord r1 r2 n m) \<subseteq> set r1 \<union> set r2"
  using assms by (auto simp: find_boundary_cells_def order_ok_def)

lemma dev_pairs_members:
  "p \<in> set dev_pairs \<Longrightarrow> fst p < 4 \<and> snd p < 4 \<and> fst p \<noteq> snd p"
  by (auto simp: dev_pairs_def)

lemma pair_step_ok:
  assumes "rect mat n m" and "wf_regions n m rs" and "order_ok ord" and "p \<in> set dev_pairs"
    and "move_ok mat rs cur st"
  shows "\<exists>st'. pair_step ord mat rs n m cur p st = Some st' \<and> move_ok mat rs cur st'"
proof -
  have p: "fst p < 4" "snd p < 4" "fst p \<noteq> snd p"
    using dev_pairs_members [OF assms(4)] by simp_all
  have "\<exists>st'. fold_opt (cell_step mat rs cur (fst p) (snd p))
                (find_boundary_cells ord (rs ! fst p) (rs ! snd p) n m) st = Some st'
              \<and> move_ok mat rs cur st'"
  proof (rule fold_opt_total [where P = "move_ok mat rs cur"])
    show "move_ok mat rs cur st" by (rule assms(5))
  next
    fix c s
    assume "c \<in> set (find_boundary_cells ord (rs ! fst p) (rs ! snd p) n m)"
      and s: "move_ok mat rs cur s"
    then have "c \<in> set (rs ! fst p) \<union> set (rs ! snd p)"
      using find_boundary_cells_subset [OF assms(3)] by blast
    then show "\<exists>s'. cell_step mat rs cur (fst p) (snd p) c s = Some s' \<and> move_ok mat rs cur s'"
      using cell_step_ok [OF assms(1,2) p] s by blast
  qed
  then show ?thesis by (simp add: pair_step_def)
qed

lemma find_best_move_ok:
  assumes "rect mat n m" and "wf_regions n m rs" and "order_ok ord"
  shows "\<exists>st. find_best_move ord mat rs n m cur = Some st \<and> move_ok mat rs cur st"
proof -
  have "\<exists>st. fold_opt (pair_step ord mat rs n m cur) dev_pairs (0, None) = Some st
              \<and> move_ok mat rs cur st"
  proof (rule fold_opt_total [where P = "move_ok mat rs cur"])
    show "move_ok mat rs cur (0, None)" by (simp add: move_ok_def)
  next
    fix p s
    assume "p \<in> set dev_pairs" and "move_ok mat rs cur s"
    then show "\<exists>s'. pair_step ord mat rs n m cur p s = Some s' \<and> move_ok mat rs cur s'"
      using pair_step_ok [OF assms] by blast
  qed
  then show ?thesis by (simp add: find_best_move_def)
qed

text \<open>
  One iteration on well-formed regions never raises. It either leaves the regions as
  they are, or moves one cell from the region that holds it to another region and
  lowers the imbalance strictly.
\<close>

definition step_effect :: "matrix \<Rightarrow> regions \<Rightarrow> regions \<times> bool \<Rightarrow> bool" where
  "step_effect mat rs res \<longleftrightarrow>
     (if snd res
      then \<exists>c f t. f < 4 \<and> t < 4 \<and> f \<noteq> t \<and> c \<in> set (rs ! f) \<and> fst res = moved rs c f t \<and>
             imbalance mat (fst res) < imbalance mat rs
      else fst res = rs)"

lemma optimize_step_ok:
  assumes "rect mat n m" and "wf_regions n m rs" and "order_ok ord"
  shows "\<exists>res. optimize_step ord mat n m rs = Some res \<and> step_effect mat rs res"
proof -
  let ?cur = "imbalance mat rs"
  have cur: "calculate_current_imbalance mat rs = Some ?cur"
    using calculate_current_imbalance_wf [OF assms(1,2)] .
  obtain imp mv where st: "find_best_move ord mat rs n m ?cur = Some (imp, mv)"
    and ok: "move_ok mat rs ?cur (imp, mv)"
    using find_best_move_ok [OF assms, of ?cur] by auto
  show ?thesis
  proof (cases mv)
    case None
    then have "optimize_step ord mat n m rs = Some (rs, False)"
      using cur st by (simp add: optimize_step_def)
    then show ?thesis by (simp add: step_effect_def)
  next
    case (Some x)
    obtain c f t where x: "x = (c, f, t)" by (cases x)
    have mv: "0 < imp" "f < 4" "t < 4" "f \<noteq> t" "c \<in> set (rs ! f)"
      "imbalance mat (moved rs c f t) = ?cur - imp"
      using ok Some x by (simp_all add: move_ok_def)
    have "optimize_step ord mat n m rs = Some (moved rs c f t, True)"
      using cur st Some x apply_move_moved [OF mv(5,4)] by (simp add: optimize_step_def)
    moreover have "\<exists>c' f' t'. f' < 4 \<and> t' < 4 \<and> f' \<noteq> t' \<and> c' \<in> set (rs ! f') \<and>
                     moved rs c f t = moved rs c' f' t' \<and>
                     imbalance mat (moved rs c f t) < imbalance mat rs"
      using mv by (intro exI [of _ c] exI [of _ f] exI [of _ t]) simp
    then have "step_effect mat rs (moved rs c f t, True)"
      by (simp add: step_effect_def)
    ultimately show ?thesis by simp
  qed
qed

text \<open>
  The loop, for any property \<open>I\<close> of the regions that moving a cell preserves: it
  returns, the regions are still well formed and satisfy \<open>I\<close>, the imbalance has not
  grown, the counter stays within the budget, and a counter below the budget means
  that the last iteration found no move.
\<close>

lemma optimize_loop_ok:
  "rect mat n m \<Longrightarrow> order_ok ord \<Longrightarrow>
   (\<forall>rs c f t. I rs \<and> wf_regions n m rs \<and> f < 4 \<and> t < 4 \<and> f \<noteq> t \<and> c \<in> set (rs ! f)
       \<longrightarrow> I (moved rs c f t)) \<Longrightarrow>
   wf_regions n m rs \<Longrightarrow> I rs \<Longrightarrow>
   \<exists>rs' it'. optimize_loop ord mat n m k rs it = Some (rs', it') \<and>
     wf_regions n m rs' \<and> I rs' \<and> imbalance mat rs' \<le> imbalance mat rs \<and>
     it \<le> it' \<and> (int it \<le> k \<longrightarrow> int it' \<le> k) \<and>
     (int it' < k \<longrightarrow> optimize_step ord mat n m rs' = Some (rs', False))"
proof (induction ord mat n m k rs it rule: optimize_loop.induct)
  case (1 ord mat n m k rs it)
  note rect = "1.prems"(1) and ord = "1.prems"(2) and pres = "1.prems"(3)
    and wf = "1.prems"(4) and inv = "1.prems"(5)
  show ?case
  proof (cases "int it < k")
    case False
    then show ?thesis using wf inv by (simp add: optimize_loop.simps [of ord mat n m k rs it])
  next
    case True
    obtain rs1 b where step: "optimize_step ord mat n m rs = Some (rs1, b)"
      and eff: "step_effect mat rs (rs1, b)"
      using optimize_step_ok [OF rect wf ord] by (metis surj_pair)
    show ?thesis
    proof (cases b)
      case False
      then have "rs1 = rs" using eff by (simp add: step_effect_def)
      then have "optimize_loop ord mat n m k rs it = Some (rs, it + 1)"
        using True step False by (simp add: optimize_loop.simps [of ord mat n m k rs it])
      then show ?thesis using wf inv True step False \<open>rs1 = rs\<close> by simp
    next
      case b: True
      then obtain c f t where mv: "f < 4" "t < 4" "f \<noteq> t" "c \<in> set (rs ! f)"
        "rs1 = moved rs c f t" "imbalance mat rs1 < imbalance mat rs"
        using eff by (auto simp: step_effect_def)
      have wf1: "wf_regions n m rs1"
        using wf_regions_moved [OF wf mv(4,1,2)] mv(5) by simp
      have I1: "I rs1"
        using pres inv wf mv by blast
      have loop: "optimize_loop ord mat n m k rs it = optimize_loop ord mat n m k rs1 (it + 1)"
        using True step b by (simp add: optimize_loop.simps [of ord mat n m k rs it])
      obtain rs' it' where res: "optimize_loop ord mat n m k rs1 (it + 1) = Some (rs', it')"
        "wf_regions n m rs'" "I rs'" "imbalance mat rs' \<le> imbalance mat rs1"
        "it + 1 \<le> it'" "int (it + 1) \<le> k \<longrightarrow> int it' \<le> k"
        "int it' < k \<longrightarrow> optimize_step ord mat n m rs' = Some (rs', False)"
        using "1.IH" [OF True step refl _ rect ord pres wf1 I1] b by auto
      show ?thesis
        using loop res mv(6) True by auto
    qed
  qed
qed

section \<open>Two-stage optimizer: the initial split\<close>

lemma length_grid_cells: "length (grid_cells n m) = n * m"
  by (simp add: grid_cells_def length_concat comp_def sum_list_triv)

lemma set_grid_cells: "set (grid_cells n m) = {c. in_bounds n m c}"
proof (rule set_eqI)
  fix c :: cell
  obtain i j where c: "c = (i, j)" by (cases c)
  have "c \<in> set (grid_cells n m) \<longleftrightarrow> (\<exists>a < n. \<exists>b < m. i = int a \<and> j = int b)"
    by (force simp: grid_cells_def c)
  also have "\<dots> \<longleftrightarrow> in_bounds n m c"
  proof
    assume "\<exists>a < n. \<exists>b < m. i = int a \<and> j = int b"
    then show "in_bounds n m c" by (auto simp: in_bounds_def c)
  next
    assume "in_bounds n m c"
    then have "nat i < n" "nat j < m" "i = int (nat i)" "j = int (nat j)"
      by (auto simp: in_bounds_def c)
    then show "\<exists>a < n. \<exists>b < m. i = int a \<and> j = int b" by blast
  qed
  finally show "c \<in> set (grid_cells n m) \<longleftrightarrow> c \<in> {c. in_bounds n m c}" by simp
qed

lemma distinct_grid_cells: "distinct (grid_cells n m)"
proof (cases "m = 0")
  case True
  have "set (grid_cells n m) = {}"
    using True by (auto simp: grid_cells_def)
  then show ?thesis by simp
next
  case False
  show ?thesis
    unfolding grid_cells_def
  proof (rule distinct_concat)
    have "inj_on (\<lambda>i. map (\<lambda>j. (int i, int j)) [0..<m]) (set [0..<n])"
      using False by (auto simp: inj_on_def upt_conv_Cons)
    then show "distinct (map (\<lambda>i. map (\<lambda>j. (int i, int j)) [0..<m]) [0..<n])"
      by (simp add: distinct_map)
  next
    fix ys assume "ys \<in> set (map (\<lambda>i. map (\<lambda>j. (int i, int j)) [0..<m]) [0..<n])"
    then show "distinct ys" by (auto simp: distinct_map inj_on_def)
  next
    fix ys zs
    assume "ys \<in> set (map (\<lambda>i. map (\<lambda>j. (int i, int j)) [0..<m]) [0..<n])"
      and "zs \<in> set (map (\<lambda>i. map (\<lambda>j. (int i, int j)) [0..<m]) [0..<n])" and "ys \<noteq> zs"
    then show "set ys \<inter> set zs = {}" by auto
  qed
qed

text \<open>The sizes of the four runs and the runs themselves.\<close>

definition run_size :: "nat \<Rightarrow> nat \<Rightarrow> nat" where
  "run_size tc dev = tc div 4 + (if dev < tc mod 4 then 1 else 0)"

lemma initial_allocation_runs:
  "initial_allocation n m =
     [take (run_size (n * m) 0) (grid_cells n m),
      take (run_size (n * m) 1) (drop (run_size (n * m) 0) (grid_cells n m)),
      take (run_size (n * m) 2) (drop (run_size (n * m) 0 + run_size (n * m) 1) (grid_cells n m)),
      take (run_size (n * m) 3)
        (drop (run_size (n * m) 0 + run_size (n * m) 1 + run_size (n * m) 2) (grid_cells n m))]"
  by (simp add: initial_allocation_def initial_step_def Let_def run_size_def)

lemma run_sizes_total:
  "run_size t 0 + run_size t 1 + run_size t 2 + run_size t 3 = t"
proof -
  have "t mod 4 = 0 \<or> t mod 4 = 1 \<or> t mod 4 = 2 \<or> t mod 4 = 3" by arith
  moreover have "t = 4 * (t div 4) + t mod 4" by simp
  ultimately show ?thesis unfolding run_size_def by (elim disjE) simp_all
qed

lemma take_take_drop: "take a xs @ take b (drop a xs) = take (a + b) xs"
  by (simp add: take_add)

lemma concat_initial_allocation: "concat (initial_allocation n m) = grid_cells n m"
proof -
  let ?s = "run_size (n * m)" and ?g = "grid_cells n m"
  have "concat (initial_allocation n m) =
          take (?s 0) ?g @ take (?s 1) (drop (?s 0) ?g) @ take (?s 2) (drop (?s 0 + ?s 1) ?g)
            @ take (?s 3) (drop (?s 0 + ?s 1 + ?s 2) ?g)"
    by (simp add: initial_allocation_runs)
  also have "\<dots> = take (?s 0 + ?s 1 + ?s 2 + ?s 3) ?g"
    by (simp only: take_take_drop append_assoc [symmetric])
  also have "\<dots> = ?g"
    using run_sizes_total [of "n * m"] by (simp only: length_grid_cells take_all order_refl)
  finally show ?thesis .
qed

text \<open>
  A partition of the grid: four regions that together hold every cell of the grid
  exactly once.
\<close>

definition is_partition :: "nat \<Rightarrow> nat \<Rightarrow> regions \<Rightarrow> bool" where
  "is_partition n m rs \<longleftrightarrow>
     length rs = 4 \<and> distinct (concat rs) \<and> set (concat rs) = {c. in_bounds n m c}"

lemma is_partition_wf: "is_partition n m rs \<Longrightarrow> wf_regions n m rs"
  by (auto simp: is_partition_def wf_regions_def)

lemma is_partition_initial: "is_partition n m (initial_allocation n m)"
  unfolding is_partition_def concat_initial_allocation
  by (simp add: distinct_grid_cells set_grid_cells initial_allocation_runs)

lemma less4_cases: "(d::nat) < 4 \<Longrightarrow> d = 0 \<or> d = 1 \<or> d = 2 \<or> d = 3"
  by arith

lemma is_partition_moved:
  assumes "is_partition n m rs" and "f < 4" and "t < 4" and "f \<noteq> t" and "c \<in> set (rs ! f)"
  shows "is_partition n m (moved rs c f t)"
proof -
  from assms(1) have "length rs = 4" by (simp add: is_partition_def)
  then obtain r0 r1 r2 r3 where rs: "rs = [r0, r1, r2, r3]" by (rule length4_cases)
  have d: "distinct (r0 @ r1 @ r2 @ r3)" and s: "set (r0 @ r1 @ r2 @ r3) = {c. in_bounds n m c}"
    using assms(1) by (simp_all add: is_partition_def rs)
  have "distinct (concat (moved rs c f t)) \<and> set (concat (moved rs c f t)) = set (r0 @ r1 @ r2 @ r3)"
    using less4_cases [OF assms(2)] less4_cases [OF assms(3)] assms(4,5) d
    by (elim disjE) (auto simp: rs moved_def)
  moreover have "length (moved rs c f t) = 4"
    using \<open>length rs = 4\<close> by (simp add: moved_def)
  ultimately show ?thesis using s by (simp only: is_partition_def simp_thms)
qed

section \<open>Two-stage optimizer: what an iteration without a move means\<close>










section \<open>Two-stage optimizer: the claims\<close>

lemma rect_nonempty:
  assumes "rect mat n m" and "0 < n" and "0 < m"
  obtains row0 rest where "mat = row0 # rest" and "length row0 = m" and "row0 \<noteq> []"
proof -
  from assms(1,2) obtain row0 rest where mat: "mat = row0 # rest"
    by (cases mat) (auto simp: rect_def)
  then have "length row0 = m" using assms(1) by (simp add: rect_def)
  then show ?thesis using that mat assms(3) by auto
qed

lemma two_stage_allocation_loop:
  assumes "rect mat n m" and "0 < n" and "0 < m"
  shows "two_stage_allocation ord mat k = optimize_loop ord mat n m k (initial_allocation n m) 0"
proof -
  obtain row0 rest where mat: "mat = row0 # rest" "length row0 = m" "row0 \<noteq> []"
    using assms by (rule rect_nonempty)
  moreover have "length mat = n" using assms(1) by (simp add: rect_def)
  ultimately show ?thesis
    by (simp add: two_stage_allocation_def create_initial_allocation_def optimize_boundaries_def)
qed

lemma two_stage_result:
  assumes "rect mat n m" and "0 < n" and "0 < m" and "order_ok ord"
  shows "\<exists>rs it. two_stage_allocation ord mat k = Some (rs, it) \<and>
           is_partition n m rs \<and>
           imbalance mat rs \<le> imbalance mat (initial_allocation n m) \<and>
           (0 \<le> k \<longrightarrow> int it \<le> k) \<and>
           (int it < k \<longrightarrow> optimize_step ord mat n m rs = Some (rs, False))"
proof -
  let ?init = "initial_allocation n m"
  have pres: "\<forall>rs c f t. is_partition n m rs \<and> wf_regions n m rs \<and> f < 4 \<and> t < 4 \<and> f \<noteq> t \<and>
          c \<in> set (rs ! f) \<longrightarrow> is_partition n m (moved rs c f t)"
    using is_partition_moved by blast
  have wf0: "wf_regions n m ?init"
    by (rule is_partition_wf [OF is_partition_initial])
  obtain rs it where res: "optimize_loop ord mat n m k ?init 0 = Some (rs, it)"
    "is_partition n m rs" "imbalance mat rs \<le> imbalance mat ?init"
    "int 0 \<le> k \<longrightarrow> int it \<le> k"
    "int it < k \<longrightarrow> optimize_step ord mat n m rs = Some (rs, False)"
    using optimize_loop_ok [OF assms(1,4) pres wf0 is_partition_initial, of k 0] by auto
  have "two_stage_allocation ord mat k = Some (rs, it)"
    using two_stage_allocation_loop [OF assms(1,2,3)] res(1) by simp
  then show ?thesis using res(2-5) by simp
qed

lemma order_ok_remdups: "order_ok remdups"
  by (simp add: order_ok_def)

text \<open>
  The disjoint cover as the claims word it: four regions, no cell in two of them, no
  cell twice in one, and together exactly the cells of the grid.
\<close>

definition disjoint_cover :: "nat \<Rightarrow> nat \<Rightarrow> regions \<Rightarrow> bool" where
  "disjoint_cover n m rs \<longleftrightarrow>
     length rs = 4 \<and>
     (\<forall>i \<in> {0..<4}. \<forall>j \<in> {0..<4}. i \<noteq> j \<longrightarrow> set (rs ! i) \<inter> set (rs ! j) = {}) \<and>
     (\<forall>i \<in> {0..<4}. distinct (rs ! i)) \<and>
     (\<Union>i \<in> {0..<4}. set (rs ! i)) = set (grid_cells n m)"

lemma upt4: "{0..<4::nat} = {0, 1, 2, 3}"
  by auto

lemma disjoint_cover_iff: "disjoint_cover n m rs \<longleftrightarrow> is_partition n m rs"
proof (cases "length rs = 4")
  case False
  then show ?thesis by (simp add: disjoint_cover_def is_partition_def)
next
  case True
  then obtain a b c d where rs: "rs = [a, b, c, d]" by (rule length4_cases)
  show ?thesis
    unfolding disjoint_cover_def is_partition_def rs upt4 set_grid_cells
    by (auto simp: Int_commute)
qed

lemma create_initial_allocation_rect:
  assumes "rect mat n m" and "0 < n" and "0 < m"
  shows "create_initial_allocation mat = Some (initial_allocation n m)"
proof -
  obtain row0 rest where mat: "mat = row0 # rest" "length row0 = m" "row0 \<noteq> []"
    using assms by (rule rect_nonempty)
  moreover have "length mat = n" using assms(1) by (simp add: rect_def)
  ultimately show ?thesis by (simp add: create_initial_allocation_def)
qed

lemma optimize_step_partition:
  assumes "rect mat n m" and "order_ok ord" and "is_partition n m rs"
    and "optimize_step ord mat n m rs = Some (rs', b)"
  shows "is_partition n m rs' \<and> imbalance mat rs' \<le> imbalance mat rs \<and>
         (b \<longrightarrow> imbalance mat rs' < imbalance mat rs)"
proof -
  have wf: "wf_regions n m rs" using assms(3) by (rule is_partition_wf)
  have eff: "step_effect mat rs (rs', b)"
    using optimize_step_ok [OF assms(1) wf assms(2)] assms(4) by auto
  show ?thesis
  proof (cases b)
    case False
    then show ?thesis using eff assms(3) by (simp add: step_effect_def)
  next
    case True
    then obtain c f t where mv: "f < 4" "t < 4" "f \<noteq> t" "c \<in> set (rs ! f)"
      "rs' = moved rs c f t" "imbalance mat rs' < imbalance mat rs"
      using eff by (auto simp: step_effect_def)
    then show ?thesis using is_partition_moved [OF assms(3) mv(1,2,3,4)] by simp
  qed
qed

text \<open>
  Claim C5. On a non-empty rectangular matrix \<open>two_stage_allocation\<close> returns, for
  every \<open>max_iterations\<close>, four pairwise disjoint regions without repeated cells
  whose union is the set of all grid cells. The split of Stage 1 is such a cover,
  and every iteration of Stage 2 turns such a cover into such a cover.
\<close>

theorem two_stage_disjoint_cover:
  assumes "rect mat n m" and "0 < n" and "0 < m" and "order_ok ord"
  shows "(\<exists>init. create_initial_allocation mat = Some init \<and> disjoint_cover n m init) \<and>
         (\<forall>rs rs' b. disjoint_cover n m rs \<and> optimize_step ord mat n m rs = Some (rs', b)
            \<longrightarrow> disjoint_cover n m rs') \<and>
         (\<exists>rs it. two_stage_allocation ord mat max_iterations = Some (rs, it) \<and>
            disjoint_cover n m rs)"
proof (intro conjI)
  show "\<exists>init. create_initial_allocation mat = Some init \<and> disjoint_cover n m init"
    using create_initial_allocation_rect [OF assms(1,2,3)] is_partition_initial [of n m]
    by (simp add: disjoint_cover_iff)
next
  show "\<forall>rs rs' b. disjoint_cover n m rs \<and> optimize_step ord mat n m rs = Some (rs', b)
          \<longrightarrow> disjoint_cover n m rs'"
    using optimize_step_partition [OF assms(1,4)] by (simp add: disjoint_cover_iff) blast
next
  show "\<exists>rs it. two_stage_allocation ord mat max_iterations = Some (rs, it) \<and>
          disjoint_cover n m rs"
    using two_stage_result [OF assms, of max_iterations] by (auto simp: disjoint_cover_iff)
qed

theorem two_stage_disjoint_cover_witness:
  "rect [[1, 2, 3], [4, 5, 6], [7, 8, 9]] 3 3 \<and> order_ok remdups \<and>
   (\<exists>rs it. two_stage_allocation remdups [[1, 2, 3], [4, 5, 6], [7, 8, 9]] 50 = Some (rs, it) \<and>
      disjoint_cover 3 3 rs)"
proof -
  have r: "rect [[1, 2, 3], [4, 5, 6], [7, 8, 9]] 3 3" by (simp add: rect_def)
  show ?thesis
    using two_stage_disjoint_cover [OF r _ _ order_ok_remdups, of 50] r order_ok_remdups
    by simp
qed

text \<open>
  Claim C7. On a non-empty rectangular matrix no iteration of Stage 2 raises the
  imbalance, an iteration that relocates a cell lowers it strictly, and the
  imbalance of the regions returned by \<open>two_stage_allocation\<close> is at most the
  imbalance of its own Stage-1 split.
\<close>

theorem two_stage_imbalance_non_increasing:
  assumes "rect mat n m" and "0 < n" and "0 < m" and "order_ok ord"
  shows "(\<forall>rs rs' b. disjoint_cover n m rs \<and> optimize_step ord mat n m rs = Some (rs', b)
            \<longrightarrow> (\<exists>before after. calculate_current_imbalance mat rs = Some before \<and>
                   calculate_current_imbalance mat rs' = Some after \<and>
                   after \<le> before \<and> (b \<longrightarrow> after < before))) \<and>
         (\<exists>init rs it first final.
            create_initial_allocation mat = Some init \<and>
            two_stage_allocation ord mat max_iterations = Some (rs, it) \<and>
            calculate_current_imbalance mat init = Some first \<and>
            calculate_current_imbalance mat rs = Some final \<and> final \<le> first)"
proof (intro conjI allI impI)
  fix rs rs' b
  assume a: "disjoint_cover n m rs \<and> optimize_step ord mat n m rs = Some (rs', b)"
  then have p: "is_partition n m rs" by (simp add: disjoint_cover_iff)
  have q: "is_partition n m rs'" "imbalance mat rs' \<le> imbalance mat rs"
    "b \<longrightarrow> imbalance mat rs' < imbalance mat rs"
    using optimize_step_partition [OF assms(1,4) p] a by blast+
  have "calculate_current_imbalance mat rs = Some (imbalance mat rs)"
    using calculate_current_imbalance_wf [OF assms(1) is_partition_wf [OF p]] .
  moreover have "calculate_current_imbalance mat rs' = Some (imbalance mat rs')"
    using calculate_current_imbalance_wf [OF assms(1) is_partition_wf [OF q(1)]] .
  ultimately show "\<exists>before after. calculate_current_imbalance mat rs = Some before \<and>
      calculate_current_imbalance mat rs' = Some after \<and> after \<le> before \<and> (b \<longrightarrow> after < before)"
    using q(2,3) by simp
next
  obtain rs it where res: "two_stage_allocation ord mat max_iterations = Some (rs, it)"
    "is_partition n m rs" "imbalance mat rs \<le> imbalance mat (initial_allocation n m)"
    using two_stage_result [OF assms, of max_iterations] by auto
  have "calculate_current_imbalance mat (initial_allocation n m)
          = Some (imbalance mat (initial_allocation n m))"
    using calculate_current_imbalance_wf [OF assms(1) is_partition_wf [OF is_partition_initial]] .
  moreover have "calculate_current_imbalance mat rs = Some (imbalance mat rs)"
    using calculate_current_imbalance_wf [OF assms(1) is_partition_wf [OF res(2)]] .
  ultimately show "\<exists>init rs it first final.
            create_initial_allocation mat = Some init \<and>
            two_stage_allocation ord mat max_iterations = Some (rs, it) \<and>
            calculate_current_imbalance mat init = Some first \<and>
            calculate_current_imbalance mat rs = Some final \<and> final \<le> first"
    using create_initial_allocation_rect [OF assms(1,2,3)] res(1,3) by simp
qed

theorem two_stage_imbalance_non_increasing_witness:
  "rect [[1, 2, 3], [4, 5, 6], [7, 8, 9]] 3 3 \<and> order_ok remdups \<and>
   (\<exists>init rs it first final.
      create_initial_allocation [[1, 2, 3], [4, 5, 6], [7, 8, 9]] = Some init \<and>
      two_stage_allocation remdups [[1, 2, 3], [4, 5, 6], [7, 8, 9]] 50 = Some (rs, it) \<and>
      calculate_current_imbalance [[1, 2, 3], [4, 5, 6], [7, 8, 9]] init = Some first \<and>
      calculate_current_imbalance [[1, 2, 3], [4, 5, 6], [7, 8, 9]] rs = Some final \<and>
      final \<le> first)"
proof -
  have r: "rect [[1, 2, 3], [4, 5, 6], [7, 8, 9]] 3 3" by (simp add: rect_def)
  show ?thesis
    using two_stage_imbalance_non_increasing [OF r _ _ order_ok_remdups, of 50] r order_ok_remdups
    by simp
qed



section \<open>Edge-connectivity and the breadth-first check\<close>

text \<open>
  Two cells are adjacent when one is the up, down, left or right neighbour of the
  other. A set of cells is edge-connected when any two of its cells are joined by a
  path of adjacent cells inside the set.
\<close>

definition adjacent :: "cell \<Rightarrow> cell \<Rightarrow> bool" where
  "adjacent a b \<longleftrightarrow> (\<exists>d \<in> set directions. b = (fst a + fst d, snd a + snd d))"

definition region_graph :: "cell set \<Rightarrow> (cell \<times> cell) set" where
  "region_graph R = {(a, b). a \<in> R \<and> b \<in> R \<and> adjacent a b}"

definition edge_connected :: "cell set \<Rightarrow> bool" where
  "edge_connected R \<longleftrightarrow> (\<forall>a \<in> R. \<forall>b \<in> R. (a, b) \<in> (region_graph R)\<^sup>*)"

lemma adjacent_sym: "adjacent a b \<Longrightarrow> adjacent b a"
  by (cases a; cases b) (auto simp: adjacent_def directions_def)

lemma region_graph_sym: "sym (region_graph R)"
  by (auto simp: sym_def region_graph_def adjacent_sym)

lemma region_graph_in: "(a, b) \<in> (region_graph R)\<^sup>* \<Longrightarrow> a \<in> R \<Longrightarrow> b \<in> R"
  by (induction rule: rtrancl_induct) (auto simp: region_graph_def)

text \<open>The neighbours of \<open>c\<close> that the inner loop of \<open>check_connected\<close> may visit.\<close>

definition open_neighbours :: "cell set \<Rightarrow> nat \<Rightarrow> nat \<Rightarrow> cell \<Rightarrow> (int \<times> int) list \<Rightarrow> cell set" where
  "open_neighbours R n m c ds =
     {nb. \<exists>d \<in> set ds. nb = (fst c + fst d, snd c + snd d) \<and> in_bounds n m nb \<and> nb \<in> R}"

lemma fold_visit_step:
  "fst (fold (visit_step R n m c) ds st) = fst st \<union> open_neighbours R n m c ds \<and>
   set (snd (fold (visit_step R n m c) ds st))
     = set (snd st) \<union> (open_neighbours R n m c ds - fst st)"
proof (induction ds arbitrary: st)
  case Nil
  show ?case by (simp add: open_neighbours_def)
next
  case (Cons d ds)
  let ?nb = "(fst c + fst d, snd c + snd d)"
  have split: "open_neighbours R n m c (d # ds)
                 = (if in_bounds n m ?nb \<and> ?nb \<in> R then {?nb} else {}) \<union> open_neighbours R n m c ds"
    by (auto simp: open_neighbours_def)
  show ?case
  proof (cases "in_bounds n m ?nb \<and> ?nb \<in> R \<and> ?nb \<notin> fst st")
    case True
    then have "visit_step R n m c d st = (insert ?nb (fst st), snd st @ [?nb])"
      by (simp add: visit_step_def Let_def)
    then show ?thesis
      using Cons.IH [of "(insert ?nb (fst st), snd st @ [?nb])"] True split by auto
  next
    case False
    then have "visit_step R n m c d st = st"
      by (auto simp: visit_step_def Let_def)
    then show ?thesis
      using Cons.IH [of st] False split by auto
  qed
qed

lemma visit_neighbours_sets:
  "fst (visit_neighbours R n m c (v, q)) = v \<union> open_neighbours R n m c directions"
  "set (snd (visit_neighbours R n m c (v, q))) = set q \<union> (open_neighbours R n m c directions - v)"
  using fold_visit_step [of R n m c directions "(v, q)"] by (simp_all add: visit_neighbours_def)

lemma open_neighbours_graph:
  assumes "c \<in> R" and "\<forall>x \<in> R. in_bounds n m x"
  shows "open_neighbours R n m c directions = {b. (c, b) \<in> region_graph R}"
  using assms by (auto simp: open_neighbours_def region_graph_def adjacent_def)

text \<open>
  The search returns exactly the cells that can be reached from the start cell
  inside the region.
\<close>

lemma bfs_loop_reachable:
  "s \<in> visited \<Longrightarrow> visited \<subseteq> {b. (s, b) \<in> (region_graph R)\<^sup>*} \<Longrightarrow> visited \<subseteq> R \<Longrightarrow>
   set queue \<subseteq> visited \<Longrightarrow>
   (\<forall>a \<in> visited - set queue. \<forall>b. (a, b) \<in> region_graph R \<longrightarrow> b \<in> visited) \<Longrightarrow>
   (\<forall>x \<in> R. in_bounds n m x) \<Longrightarrow>
   bfs_loop R n m visited queue = {b. (s, b) \<in> (region_graph R)\<^sup>*}"
proof (induction R n m visited queue rule: bfs_loop.induct)
  case (1 R n m visited)
  have "b \<in> visited" if "(s, b) \<in> (region_graph R)\<^sup>*" for b
    using that
  proof (induction rule: rtrancl_induct)
    case base
    show ?case using "1.prems"(1) .
  next
    case (step y z)
    have "\<forall>b. (y, b) \<in> region_graph R \<longrightarrow> b \<in> visited"
      using "1.prems"(5) step(3) by (metis Diff_iff empty_iff empty_set)
    then show ?case using step(2) by blast
  qed
  then show ?case using "1.prems"(2) by auto
next
  case (2 R n m visited c queue)
  let ?N = "open_neighbours R n m c directions"
  let ?v = "fst (visit_neighbours R n m c (visited, queue))"
  let ?q = "snd (visit_neighbours R n m c (visited, queue))"
  have v: "?v = visited \<union> ?N" and q: "set ?q = set queue \<union> (?N - visited)"
    by (rule visit_neighbours_sets)+
  have c: "c \<in> visited" "c \<in> R" "(s, c) \<in> (region_graph R)\<^sup>*"
    using "2.prems"(2,3,4) by auto
  have N: "?N = {b. (c, b) \<in> region_graph R}"
    using open_neighbours_graph [OF c(2) "2.prems"(6)] .
  have "bfs_loop R n m ?v ?q = {b. (s, b) \<in> (region_graph R)\<^sup>*}"
  proof (rule "2.IH")
    show "s \<in> ?v" using "2.prems"(1) v by simp
    show "?v \<subseteq> {b. (s, b) \<in> (region_graph R)\<^sup>*}"
      using "2.prems"(2) c(3) v N by (auto intro: rtrancl_into_rtrancl)
    show "?v \<subseteq> R" using "2.prems"(3) v N by (auto simp: region_graph_def)
    show "set ?q \<subseteq> ?v" using "2.prems"(4) v q by auto
    show "\<forall>a \<in> ?v - set ?q. \<forall>b. (a, b) \<in> region_graph R \<longrightarrow> b \<in> ?v"
    proof (intro ballI allI impI)
      fix a b assume a: "a \<in> ?v - set ?q" and ab: "(a, b) \<in> region_graph R"
      then have av: "a \<in> visited" "a \<notin> set queue" using v q by auto
      show "b \<in> ?v"
      proof (cases "a = c")
        case True
        then show ?thesis using ab v N by simp
      next
        case False
        then have "a \<in> visited - set (c # queue)" using av by simp
        then show ?thesis using "2.prems"(5) ab v by blast
      qed
    qed
    show "\<forall>x \<in> R. in_bounds n m x" using "2.prems"(6) .
  qed
  then show ?case by simp
qed

lemma edge_connected_from:
  assumes "s \<in> R"
  shows "edge_connected R \<longleftrightarrow> R \<subseteq> {b. (s, b) \<in> (region_graph R)\<^sup>*}"
proof
  assume "edge_connected R"
  then show "R \<subseteq> {b. (s, b) \<in> (region_graph R)\<^sup>*}"
    using assms by (auto simp: edge_connected_def)
next
  assume sub: "R \<subseteq> {b. (s, b) \<in> (region_graph R)\<^sup>*}"
  have "(a, b) \<in> (region_graph R)\<^sup>*" if "a \<in> R" "b \<in> R" for a b
  proof -
    have "(s, a) \<in> (region_graph R)\<^sup>*" "(s, b) \<in> (region_graph R)\<^sup>*"
      using sub that by auto
    moreover have "(a, s) \<in> (region_graph R)\<^sup>*"
      using \<open>(s, a) \<in> (region_graph R)\<^sup>*\<close> region_graph_sym [of R]
      by (meson sym_rtrancl symD)
    ultimately show ?thesis by (meson rtrancl_trans)
  qed
  then show "edge_connected R" by (simp add: edge_connected_def)
qed

text \<open>
  On a region of in-bounds cells without repetitions \<open>check_connected\<close> decides
  edge-connectivity.
\<close>

lemma check_connected_iff:
  assumes "distinct r" and "\<forall>x \<in> set r. in_bounds n m x"
  shows "check_connected r n m \<longleftrightarrow> edge_connected (set r)"
proof (cases "length r \<le> 1")
  case True
  then have "r = [] \<or> (\<exists>x. r = [x])"
    by (cases r) auto
  then have "edge_connected (set r)"
    by (auto simp: edge_connected_def)
  then show ?thesis using True by (simp add: check_connected_def)
next
  case False
  then obtain s rest where r: "r = s # rest" by (cases r) auto
  let ?R = "set r"
  let ?reach = "{b. (s, b) \<in> (region_graph ?R)\<^sup>*}"
  have s: "s \<in> ?R" by (simp add: r)
  have bfs: "bfs_loop ?R n m {s} [s] = ?reach"
    by (rule bfs_loop_reachable) (use s assms(2) in auto)
  have sub: "?reach \<subseteq> ?R"
    using region_graph_in [of s _ ?R] s by auto
  have "card ?reach = length r \<longleftrightarrow> ?reach = ?R"
  proof
    assume "card ?reach = length r"
    then have "card ?reach = card ?R" using assms(1) by (simp add: distinct_card)
    then show "?reach = ?R" using sub by (simp add: card_subset_eq)
  next
    assume "?reach = ?R"
    then show "card ?reach = length r" using assms(1) by (simp add: distinct_card)
  qed
  also have "\<dots> \<longleftrightarrow> edge_connected ?R"
    using edge_connected_from [OF s] sub by auto
  finally show ?thesis using False bfs by (simp add: check_connected_def r)
qed

section \<open>Row-major runs of cells\<close>

lemma grid_cells_Suc:
  "grid_cells (Suc n) m = grid_cells n m @ map (\<lambda>j. (int n, int j)) [0..<m]"
  by (simp add: grid_cells_def)

lemma grid_cells_row_major: "grid_cells n m = map (cell_of_index m) [0..<n * m]"
proof (induction n)
  case 0
  show ?case by (simp add: grid_cells_def)
next
  case (Suc n)
  have row: "map (cell_of_index m) [n * m..<n * m + m] = map (\<lambda>j. (int n, int j)) [0..<m]"
  proof (rule nth_equalityI)
    show "length (map (cell_of_index m) [n * m..<n * m + m])
            = length (map (\<lambda>j. (int n, int j)) [0..<m])"
      by simp
  next
    fix i assume "i < length (map (cell_of_index m) [n * m..<n * m + m])"
    then have i: "i < m" by simp
    then have "(n * m + i) div m = n" "(n * m + i) mod m = i" by simp_all
    then show "map (cell_of_index m) [n * m..<n * m + m] ! i
                 = map (\<lambda>j. (int n, int j)) [0..<m] ! i"
      using i by (simp add: cell_of_index_def)
  qed
  have "Suc n * m = n * m + m" by simp
  then have "[0..<Suc n * m] = [0..<n * m] @ [n * m..<n * m + m]"
    by (simp only: upt_add_eq_append [OF le0])
  then show ?case
    using Suc row by (simp only: grid_cells_Suc map_append)
qed

lemma cell_of_index_inj:
  assumes "0 < m" and "cell_of_index m a = cell_of_index m b"
  shows "a = b"
proof -
  have "a div m = b div m" "a mod m = b mod m"
    using assms(2) by (simp_all add: cell_of_index_def)
  then show ?thesis by (metis div_mult_mod_eq)
qed

lemma cell_of_index_next:
  assumes "Suc k mod m \<noteq> 0"
  shows "adjacent (cell_of_index m k) (cell_of_index m (Suc k))"
proof -
  have "Suc k div m = k div m" "Suc k mod m = Suc (k mod m)"
    using assms by (simp_all add: div_Suc mod_Suc split: if_splits)
  then have "cell_of_index m (Suc k)
               = (fst (cell_of_index m k) + 0, snd (cell_of_index m k) + 1)"
    by (simp add: cell_of_index_def)
  then show ?thesis
    unfolding adjacent_def directions_def by (metis fst_conv snd_conv list.set_intros)
qed

lemma cell_of_index_below:
  assumes "0 < m"
  shows "adjacent (cell_of_index m k) (cell_of_index m (k + m))"
proof -
  have "(k + m) div m = k div m + 1" "(k + m) mod m = k mod m"
    using assms by (simp_all add: div_add_self2)
  then have "cell_of_index m (k + m)
               = (fst (cell_of_index m k) + 1, snd (cell_of_index m k) + 0)"
    by (simp add: cell_of_index_def)
  then show ?thesis
    unfolding adjacent_def directions_def by (metis fst_conv snd_conv list.set_intros)
qed

text \<open>
  The cells with row-major index in \<open>[s, e)\<close>. Such a run is edge-connected when it
  lies within one row or holds more than \<open>m\<close> cells.
\<close>

definition run_cells :: "nat \<Rightarrow> nat \<Rightarrow> nat \<Rightarrow> cell set" where
  "run_cells m s e = cell_of_index m ` {s..<e}"

lemma region_graph_rtrancl_sym:
  "(a, b) \<in> (region_graph R)\<^sup>* \<Longrightarrow> (b, a) \<in> (region_graph R)\<^sup>*"
  using region_graph_sym [of R] by (meson sym_rtrancl symD)

lemma run_edge:
  assumes "s \<le> a" and "a < e" and "s \<le> b" and "b < e"
    and "adjacent (cell_of_index m a) (cell_of_index m b)"
  shows "(cell_of_index m a, cell_of_index m b) \<in> region_graph (run_cells m s e)"
  using assms by (auto simp: region_graph_def run_cells_def)

lemma same_row_connected:
  assumes "s \<le> a" and "a \<le> b" and "b < e" and "a div m = b div m"
  shows "(cell_of_index m a, cell_of_index m b) \<in> (region_graph (run_cells m s e))\<^sup>*"
  using assms(2)
proof (induction b rule: dec_induct)
  case base
  show ?case by simp
next
  case (step k)
  have "a div m \<le> k div m" "k div m \<le> Suc k div m" "Suc k div m \<le> b div m"
    using step(1,2) by (simp_all add: div_le_mono)
  then have same: "Suc k div m = k div m" using assms(4) by linarith
  then have "Suc k mod m \<noteq> 0"
    by (auto simp: div_Suc split: if_splits)
  then have "adjacent (cell_of_index m k) (cell_of_index m (Suc k))"
    by (rule cell_of_index_next)
  then have "(cell_of_index m k, cell_of_index m (Suc k)) \<in> region_graph (run_cells m s e)"
    using assms(1,3) step(1,2) by (intro run_edge) simp_all
  then show ?case using step.IH by (rule rtrancl_into_rtrancl [rotated])
qed

lemma run_connected_from_start:
  assumes m: "0 < m" and cond: "(e - 1) div m = s div m \<or> m < e - s"
  shows "s \<le> k \<Longrightarrow> k < e \<Longrightarrow>
         (cell_of_index m s, cell_of_index m k) \<in> (region_graph (run_cells m s e))\<^sup>*"
proof (induction "k div m - s div m" arbitrary: k)
  case 0
  then have "k div m = s div m"
    using div_le_mono [of s k m] by simp
  then show ?case using same_row_connected [of s s k e m] 0 by simp
next
  case (Suc d)
  let ?G = "region_graph (run_cells m s e)"
  let ?c = "cell_of_index m"
  define q where "q = k div m"
  define k0 where "k0 = q * m"
  have q: "s div m < q" "q = Suc d + s div m" using Suc(2) by (simp_all add: q_def)
  have k0: "k0 \<le> k" "s < k0" "k0 div m = q"
    using m q(1) by (simp_all add: k0_def q_def div_less_iff_less_mult)
  have k0k: "(?c k0, ?c k) \<in> ?G\<^sup>*"
    using same_row_connected [of s k0 k e m] k0 Suc.prems by (simp add: q_def)
  have "k div m \<le> (e - 1) div m"
    using Suc.prems by (intro div_le_mono) simp
  then have long: "m < e - s" using cond q(1) by (auto simp: q_def)
  have sk0: "(?c s, ?c k0) \<in> ?G\<^sup>*"
  proof (cases "s + m \<le> k0")
    case True
    define j where "j = k0 - m"
    have j: "s \<le> j" "j < e" "j + m = k0" using True k0(1) Suc.prems by (simp_all add: j_def)
    have "j = (q - 1) * m" using q(1) by (simp add: j_def k0_def diff_mult_distrib)
    then have "j div m = q - 1" using m by simp
    then have "d = j div m - s div m" using q(2) by simp
    then have "(?c s, ?c j) \<in> ?G\<^sup>*" using Suc(1) j by simp
    moreover have "(?c j, ?c k0) \<in> ?G"
      using run_edge [of s j e k0 m] cell_of_index_below [OF m, of j] j k0 Suc.prems by simp
    ultimately show ?thesis by (rule rtrancl_into_rtrancl)
  next
    case False
    have sm: "s + m < e" using long by simp
    have "(s + m) div m = s div m + 1" using m by (simp add: div_add_self2)
    moreover have "q \<le> (s + m) div m"
      using False m div_le_mono [of k0 "s + m" m] k0(3) by simp
    ultimately have "(s + m) div m = q" using q(1) by simp
    then have "(?c k0, ?c (s + m)) \<in> ?G\<^sup>*"
      using same_row_connected [of s k0 "s + m" e m] k0 False sm by simp
    then have "(?c (s + m), ?c k0) \<in> ?G\<^sup>*" by (rule region_graph_rtrancl_sym)
    moreover have "(?c s, ?c (s + m)) \<in> ?G"
      using run_edge [of s s e "s + m" m] cell_of_index_below [OF m, of s] sm by simp
    ultimately show ?thesis by (meson converse_rtrancl_into_rtrancl)
  qed
  then show ?case using k0k by (meson rtrancl_trans)
qed

lemma run_cells_connected:
  assumes "0 < m" and "(e - 1) div m = s div m \<or> m < e - s"
  shows "edge_connected (run_cells m s e)"
proof (cases "s < e")
  case False
  then have "run_cells m s e = {}" by (simp add: run_cells_def)
  then show ?thesis by (simp add: edge_connected_def)
next
  case True
  then have start: "cell_of_index m s \<in> run_cells m s e" by (simp add: run_cells_def)
  have "run_cells m s e \<subseteq> {b. (cell_of_index m s, b) \<in> (region_graph (run_cells m s e))\<^sup>*}"
    using run_connected_from_start [OF assms] by (auto simp: run_cells_def)
  then show ?thesis using edge_connected_from [OF start] by simp
qed

section \<open>Two-stage optimizer: connectivity of the initial split\<close>

text \<open>Region \<open>dev\<close> of the initial split is the run that starts at \<open>run_start\<close>.\<close>

definition run_start :: "nat \<Rightarrow> nat \<Rightarrow> nat" where
  "run_start tc dev = sum_list (map (run_size tc) [0..<dev])"

lemma run_start_simps:
  "run_start tc 0 = 0"
  "run_start tc (Suc dev) = run_start tc dev + run_size tc dev"
  by (simp_all add: run_start_def)

lemma initial_allocation_nth:
  assumes "dev < 4"
  shows "initial_allocation n m ! dev
           = take (run_size (n * m) dev) (drop (run_start (n * m) dev) (grid_cells n m))"
  using less4_cases [OF assms]
  by (elim disjE)
     (simp_all add: initial_allocation_runs run_start_simps numeral_2_eq_2 numeral_3_eq_3)

lemma run_end_le:
  assumes "dev < 4"
  shows "run_start tc dev + run_size tc dev \<le> tc"
  using less4_cases [OF assms] run_sizes_total [of tc]
  by (elim disjE) (simp_all add: run_start_simps numeral_2_eq_2 numeral_3_eq_3)

lemma initial_region_indices:
  assumes "dev < 4"
  shows "initial_allocation n m ! dev
           = map (cell_of_index m)
               [run_start (n * m) dev..<run_start (n * m) dev + run_size (n * m) dev]"
proof -
  let ?s = "run_start (n * m) dev" and ?l = "run_size (n * m) dev"
  have "take ?l (drop ?s [0..<n * m]) = [?s..<?s + ?l]"
    using run_end_le [OF assms, of "n * m"] by (simp add: take_upt)
  then show ?thesis
    by (simp add: initial_allocation_nth [OF assms] grid_cells_row_major drop_map take_map)
qed

lemma initial_region_connected:
  assumes "0 < m" and "dev < 4"
    and "(\<forall>c \<in> set (initial_allocation n m ! dev). fst c = fst (hd (initial_allocation n m ! dev)))
         \<or> m < length (initial_allocation n m ! dev)"
  shows "edge_connected (set (initial_allocation n m ! dev))"
proof -
  let ?s = "run_start (n * m) dev" and ?l = "run_size (n * m) dev"
  let ?r = "initial_allocation n m ! dev"
  have r: "?r = map (cell_of_index m) [?s..<?s + ?l]"
    by (rule initial_region_indices [OF assms(2)])
  then have set_r: "set ?r = run_cells m ?s (?s + ?l)" by (simp add: run_cells_def)
  have len: "length ?r = ?l" using r by simp
  show ?thesis
  proof (cases "?l = 0")
    case True
    then show ?thesis using set_r by (simp add: run_cells_def edge_connected_def)
  next
    case False
    then have hd_r: "hd ?r = cell_of_index m ?s"
      using r by (simp add: hd_map upt_conv_Cons)
    have last_in: "cell_of_index m (?s + ?l - 1) \<in> set ?r"
      using False r by simp
    have "(?s + ?l - 1) div m = ?s div m \<or> m < ?s + ?l - ?s"
    proof (rule disjE [OF assms(3)])
      assume "\<forall>c \<in> set ?r. fst c = fst (hd ?r)"
      then have "fst (cell_of_index m (?s + ?l - 1)) = fst (cell_of_index m ?s)"
        using last_in hd_r by simp
      then show ?thesis by (simp add: cell_of_index_def)
    next
      assume "m < length ?r"
      then show ?thesis using len by simp
    qed
    then show ?thesis
      using run_cells_connected [OF assms(1), of "?s + ?l" ?s] set_r by simp
  qed
qed

lemma initial_region_checked:
  assumes "dev < 4"
  shows "check_connected (initial_allocation n m ! dev) n m
           \<longleftrightarrow> edge_connected (set (initial_allocation n m ! dev))"
proof (rule check_connected_iff)
  have p: "is_partition n m (initial_allocation n m)" by (rule is_partition_initial)
  then have "length (initial_allocation n m) = 4" by (simp add: is_partition_def)
  then have mem: "initial_allocation n m ! dev \<in> set (initial_allocation n m)"
    using assms by simp
  show "distinct (initial_allocation n m ! dev)"
    using p mem by (auto simp: is_partition_def distinct_concat_iff)
  show "\<forall>x \<in> set (initial_allocation n m ! dev). in_bounds n m x"
    using is_partition_wf [OF p] mem by (auto simp: wf_regions_def)
qed

text \<open>
  Claim C6 does not hold as stated: on the \<open>3 \<times> 3\<close> matrix of the repository's own
  test the third region of the Stage-1 split is \<open>[(1, 2), (2, 0)]\<close>, two cells that
  are not adjacent.
\<close>

theorem initial_split_not_connected:
  "create_initial_allocation [[1, 2, 3], [4, 5, 6], [7, 8, 9]]
     = Some [[(0, 0), (0, 1), (0, 2)], [(1, 0), (1, 1)], [(1, 2), (2, 0)], [(2, 1), (2, 2)]] \<and>
   \<not> check_connected [(1, 2), (2, 0)] 3 3 \<and>
   \<not> edge_connected (set [(1, 2), (2, 0)])"
proof -
  have split: "create_initial_allocation [[1, 2, 3], [4, 5, 6], [7, 8, 9]]
     = Some [[(0, 0), (0, 1), (0, 2)], [(1, 0), (1, 1)], [(1, 2), (2, 0)], [(2, 1), (2, 2)]]"
    by code_simp
  have check: "\<not> check_connected [(1, 2), (2, 0)] 3 3"
    by code_simp
  have "check_connected [(1, 2), (2, 0)] 3 3 \<longleftrightarrow> edge_connected (set [(1, 2), (2, 0)])"
    by (rule check_connected_iff) (simp_all add: in_bounds_def)
  then show ?thesis using split check by simp
qed

text \<open>
  Claim C6, amended. On a non-empty rectangular matrix every non-empty region of the
  Stage-1 split that lies within one row of the grid or holds more than \<open>m\<close> cells
  is edge-connected, and \<open>check_connected\<close> accepts it.
\<close>

theorem initial_split_connected_runs:
  assumes "rect mat n m" and "0 < n" and "0 < m"
    and "create_initial_allocation mat = Some init" and "dev < 4" and "init ! dev \<noteq> []"
    and "(\<forall>c \<in> set (init ! dev). fst c = fst (hd (init ! dev))) \<or> m < length (init ! dev)"
  shows "edge_connected (set (init ! dev)) \<and> check_connected (init ! dev) n m"
proof -
  have init: "init = initial_allocation n m"
    using create_initial_allocation_rect [OF assms(1,2,3)] assms(4) by simp
  have "edge_connected (set (init ! dev))"
    using initial_region_connected [OF assms(3,5)] assms(7) unfolding init by simp
  then show ?thesis
    using initial_region_checked [OF assms(5), of n m] unfolding init by simp
qed

theorem initial_split_connected_runs_witness:
  "rect [[1, 2, 3], [4, 5, 6], [7, 8, 9]] 3 3 \<and>
   create_initial_allocation [[1, 2, 3], [4, 5, 6], [7, 8, 9]]
     = Some [[(0, 0), (0, 1), (0, 2)], [(1, 0), (1, 1)], [(1, 2), (2, 0)], [(2, 1), (2, 2)]] \<and>
   edge_connected (set [(0, 0), (0, 1), (0, 2)]) \<and> check_connected [(0, 0), (0, 1), (0, 2)] 3 3"
proof -
  have r: "rect [[1, 2, 3], [4, 5, 6], [7, 8, 9]] 3 3" by (simp add: rect_def)
  have split: "create_initial_allocation [[1, 2, 3], [4, 5, 6], [7, 8, 9]]
     = Some [[(0, 0), (0, 1), (0, 2)], [(1, 0), (1, 1)], [(1, 2), (2, 0)], [(2, 1), (2, 2)]]"
    by code_simp
  show ?thesis
    using initial_split_connected_runs [OF r _ _ split, of 0] r split by simp
qed

section \<open>Greedy builder: the assignment matrix and the frontier\<close>

text \<open>\<open>assigned\<close> has \<open>n\<close> rows of \<open>m\<close> entries throughout.\<close>

definition dims :: "nat \<Rightarrow> nat \<Rightarrow> bool list list \<Rightarrow> bool" where
  "dims n m a \<longleftrightarrow> length a = n \<and> (\<forall>row \<in> set a. length row = m)"

lemma dims_init: "dims n m (replicate n (replicate m False))"
  by (simp add: dims_def)

lemma is_assigned_init:
  assumes "in_bounds n m c"
  shows "\<not> is_assigned (replicate n (replicate m False)) c"
proof -
  have "nat (fst c) < n" "nat (snd c) < m"
    using assms by (auto simp: in_bounds_def)
  then show ?thesis by (simp add: is_assigned_def)
qed

lemma dims_mark:
  assumes "dims n m a"
  shows "dims n m (mark_assigned a c)"
proof -
  have "length row = m" if "row \<in> set (mark_assigned a c)" for row
  proof -
    from that have "row \<in> insert ((a ! nat (fst c))[nat (snd c) := True]) (set a)"
      unfolding mark_assigned_def using set_update_subset_insert by fastforce
    then show ?thesis
    proof
      assume row: "row = (a ! nat (fst c))[nat (snd c) := True]"
      show ?thesis
      proof (cases "nat (fst c) < length a")
        case True
        then show ?thesis using assms row by (simp add: dims_def)
      next
        case False
        then have "mark_assigned a c = a" by (simp add: mark_assigned_def list_update_beyond)
        then show ?thesis using that assms by (simp add: dims_def)
      qed
    next
      assume "row \<in> set a"
      then show ?thesis using assms by (simp add: dims_def)
    qed
  qed
  then show ?thesis using assms by (simp add: dims_def mark_assigned_def)
qed

lemma is_assigned_mark:
  assumes "dims n m a" and "in_bounds n m c" and "in_bounds n m x"
  shows "is_assigned (mark_assigned a c) x \<longleftrightarrow> x = c \<or> is_assigned a x"
proof -
  obtain i j where c: "c = (i, j)" by (cases c)
  obtain k l where x: "x = (k, l)" by (cases x)
  have b: "nat i < length a" "nat k < length a" "nat j < m" "nat l < m"
    "0 \<le> i" "0 \<le> j" "0 \<le> k" "0 \<le> l"
    using assms by (auto simp: dims_def in_bounds_def c x)
  then have len: "length (a ! nat i) = m" using assms(1) by (simp add: dims_def)
  show ?thesis
  proof (cases "k = i")
    case True
    then show ?thesis
      using b len by (auto simp: is_assigned_def mark_assigned_def c x nth_list_update)
  next
    case False
    then have "nat k \<noteq> nat i" using b by simp
    then show ?thesis
      using b False by (simp add: is_assigned_def mark_assigned_def c x)
  qed
qed

text \<open>
  The grid is connected: a non-empty set of grid cells that misses some grid cell
  has a cell with a neighbour in the grid outside the set.
\<close>

lemma step_towards:
  assumes "in_bounds n m c" and "in_bounds n m x0" and "c \<noteq> x0"
  shows "\<exists>c'. in_bounds n m c' \<and> adjacent c' c \<and>
           nat \<bar>fst c' - fst x0\<bar> + nat \<bar>snd c' - snd x0\<bar>
             < nat \<bar>fst c - fst x0\<bar> + nat \<bar>snd c - snd x0\<bar>"
proof -
  obtain i j where c: "c = (i, j)" by (cases c)
  obtain i0 j0 where x0: "x0 = (i0, j0)" by (cases x0)
  have cases: "i0 < i \<or> i < i0 \<or> (i = i0 \<and> j0 < j) \<or> (i = i0 \<and> j < j0)"
    using assms(3) by (auto simp: c x0)
  have adj: "adjacent (i - 1, j) (i, j)" "adjacent (i + 1, j) (i, j)"
    "adjacent (i, j - 1) (i, j)" "adjacent (i, j + 1) (i, j)"
    by (simp_all add: adjacent_def directions_def)
  from cases show ?thesis
  proof (elim disjE)
    assume "i0 < i"
    then show ?thesis
      using assms(1,2) adj(1) by (intro exI [of _ "(i - 1, j)"]) (auto simp: in_bounds_def c x0)
  next
    assume "i < i0"
    then show ?thesis
      using assms(1,2) adj(2) by (intro exI [of _ "(i + 1, j)"]) (auto simp: in_bounds_def c x0)
  next
    assume "i = i0 \<and> j0 < j"
    then show ?thesis
      using assms(1,2) adj(3) by (intro exI [of _ "(i, j - 1)"]) (auto simp: in_bounds_def c x0)
  next
    assume "i = i0 \<and> j < j0"
    then show ?thesis
      using assms(1,2) adj(4) by (intro exI [of _ "(i, j + 1)"]) (auto simp: in_bounds_def c x0)
  qed
qed

lemma closed_set_is_grid:
  assumes "x0 \<in> A" and "in_bounds n m x0"
    and closed: "\<And>x y. x \<in> A \<Longrightarrow> in_bounds n m y \<Longrightarrow> adjacent x y \<Longrightarrow> y \<in> A"
  shows "in_bounds n m c \<Longrightarrow> c \<in> A"
proof (induction "nat \<bar>fst c - fst x0\<bar> + nat \<bar>snd c - snd x0\<bar>" arbitrary: c rule: less_induct)
  case less
  show ?case
  proof (cases "c = x0")
    case True
    then show ?thesis using assms(1) by simp
  next
    case False
    then obtain c' where c': "in_bounds n m c'" "adjacent c' c"
      "nat \<bar>fst c' - fst x0\<bar> + nat \<bar>snd c' - snd x0\<bar>
         < nat \<bar>fst c - fst x0\<bar> + nat \<bar>snd c - snd x0\<bar>"
      using step_towards [OF less.prems assms(2)] by blast
    then have "c' \<in> A" using less.hyps by blast
    then show ?thesis using closed c'(2) less.prems by blast
  qed
qed

lemma grid_frontier:
  assumes "x0 \<in> A" and "in_bounds n m x0" and "in_bounds n m u" and "u \<notin> A"
  shows "\<exists>x \<in> A. \<exists>y. in_bounds n m y \<and> y \<notin> A \<and> adjacent x y"
proof (rule ccontr)
  assume "\<not> ?thesis"
  then have "\<And>x y. x \<in> A \<Longrightarrow> in_bounds n m y \<Longrightarrow> adjacent x y \<Longrightarrow> y \<in> A" by blast
  then have "u \<in> A" using closed_set_is_grid [OF assms(1,2) _ assms(3)] by blast
  then show False using assms(4) by simp
qed

lemma edge_connected_insert:
  assumes "edge_connected R" and "x \<in> R" and "adjacent x c"
  shows "edge_connected (insert c R)"
proof -
  let ?G = "region_graph R" and ?G' = "region_graph (insert c R)"
  have mono: "?G\<^sup>* \<subseteq> ?G'\<^sup>*"
    by (rule rtrancl_mono) (auto simp: region_graph_def)
  have xc: "(x, c) \<in> ?G'" using assms(2,3) by (simp add: region_graph_def)
  have "(x, b) \<in> ?G'\<^sup>*" if "b \<in> insert c R" for b
  proof (cases "b = c")
    case True
    then show ?thesis using xc by auto
  next
    case False
    then have "b \<in> R" using that by simp
    then have "(x, b) \<in> ?G\<^sup>*" using assms(1,2) by (simp add: edge_connected_def)
    then show ?thesis using mono by blast
  qed
  then show ?thesis
    using edge_connected_from [of x "insert c R"] assms(2) by auto
qed

lemma edge_connected_single: "edge_connected {c}"
  by (simp add: edge_connected_def)

lemma py_index_mem:
  "x \<in> set xs \<Longrightarrow> \<exists>i. py_index xs x = Some i \<and> i < length xs \<and> xs ! i = x"
  by (induction xs) auto

section \<open>Greedy builder: one iteration of the growth loop\<close>

lemma free_neighbours_set:
  "set (free_neighbours a n m x) = {y. adjacent x y \<and> in_bounds n m y \<and> \<not> is_assigned a y}"
  by (auto simp: free_neighbours_def adjacent_def)

lemma get_adjacent_free_cells_set:
  assumes "order_ok ord"
  shows "set (get_adjacent_free_cells ord r a n m)
           = {y. in_bounds n m y \<and> \<not> is_assigned a y \<and> (\<exists>x \<in> set r. adjacent x y)}"
  using assms by (auto simp: get_adjacent_free_cells_def order_ok_def free_neighbours_set)

lemma find_developer_from_some:
  assumes "\<exists>dev \<in> set devs. get_adjacent_free_cells ord (rs ! dev) a n m \<noteq> []"
  shows "\<exists>dev \<in> set devs.
           find_developer_from ord rs a n m devs
             = (int dev, get_adjacent_free_cells ord (rs ! dev) a n m) \<and>
           get_adjacent_free_cells ord (rs ! dev) a n m \<noteq> []"
  using assms
proof (induction devs)
  case Nil
  then show ?case by simp
next
  case (Cons d devs)
  show ?case
  proof (cases "get_adjacent_free_cells ord (rs ! d) a n m = []")
    case True
    then have "\<exists>dev \<in> set devs. get_adjacent_free_cells ord (rs ! dev) a n m \<noteq> []"
      using Cons.prems by auto
    then show ?thesis using Cons.IH True by (auto simp: Let_def)
  next
    case False
    then show ?thesis by (auto simp: Let_def)
  qed
qed

definition cell_chosen :: "cell list \<Rightarrow> cell option \<times> int option \<Rightarrow> bool" where
  "cell_chosen adj st \<longleftrightarrow> (case fst st of None \<Rightarrow> True | Some c \<Rightarrow> c \<in> set adj)"

lemma choose_step_ok:
  assumes "rect mat n m" and "in_bounds n m c" and "c \<in> set adj" and "cell_chosen adj st"
    and "0 \<le> t" and "t < int (length sums)"
  shows "\<exists>st'. choose_step mat sums t c st = Some st' \<and> cell_chosen adj st'"
  using assms cell_value_in_bounds [OF assms(1,2)]
  by (cases st) (auto simp: choose_step_def cell_chosen_def py_get_def py_set_def Let_def)

lemma choose_best_cell_ok:
  assumes "rect mat n m" and "adj \<noteq> []" and "\<forall>c \<in> set adj. in_bounds n m c"
    and "0 \<le> t" and "t < int (length sums)"
  shows "\<exists>c \<in> set adj. choose_best_cell adj mat sums t = Some c"
proof (cases "length adj = 1")
  case True
  then show ?thesis using assms(2) by (cases adj) (auto simp: choose_best_cell_def)
next
  case False
  have "\<exists>st'. fold_opt (choose_step mat sums t) adj (None, None) = Some st' \<and> cell_chosen adj st'"
  proof (rule fold_opt_total [where P = "cell_chosen adj"])
    show "cell_chosen adj (None, None)" by (simp add: cell_chosen_def)
  next
    fix c st assume "c \<in> set adj" and "cell_chosen adj st"
    then show "\<exists>st'. choose_step mat sums t c st = Some st' \<and> cell_chosen adj st'"
      using choose_step_ok [OF assms(1) _ _ _ assms(4,5)] assms(3) by blast
  qed
  then obtain best mi where st: "fold_opt (choose_step mat sums t) adj (None, None) = Some (best, mi)"
    and ch: "cell_chosen adj (best, mi)" by auto
  obtain c0 rest where adj: "adj = c0 # rest" using assms(2) by (cases adj) auto
  show ?thesis
  proof (cases best)
    case None
    then have "choose_best_cell adj mat sums t = Some c0"
      using False st adj by (simp add: choose_best_cell_def)
    then show ?thesis using adj by simp
  next
    case (Some c)
    then have "choose_best_cell adj mat sums t = Some c"
      using False st by (simp add: choose_best_cell_def)
    then show ?thesis using ch Some by (simp add: cell_chosen_def)
  qed
qed

lemma card_in_bounds: "card {c. in_bounds n m c} = n * m"
  using distinct_card [OF distinct_grid_cells, of n m]
  by (simp add: set_grid_cells length_grid_cells)

text \<open>
  The invariant of the growth loop when the four seeds are distinct cells: the
  regions are non-empty, edge-connected and without repeated cells, they hold
  exactly the cells marked in \<open>assigned\<close>, and the two counters agree with them.
\<close>

definition ginv :: "nat \<Rightarrow> nat \<Rightarrow> greedy_state \<Rightarrow> bool" where
  "ginv n m st \<longleftrightarrow>
     length (g_regions st) = 4 \<and> length (g_sums st) = 4 \<and> dims n m (g_assigned st) \<and>
     distinct (concat (g_regions st)) \<and>
     set (concat (g_regions st)) = {c. in_bounds n m c \<and> is_assigned (g_assigned st) c} \<and>
     total_assigned st = length (concat (g_regions st)) \<and>
     (\<forall>r \<in> set (g_regions st). r \<noteq> [] \<and> edge_connected (set r)) \<and>
     allocation_iter_count st + 4 = total_assigned st"

definition grown :: "greedy_state \<Rightarrow> nat \<Rightarrow> cell \<Rightarrow> int \<Rightarrow> greedy_state" where
  "grown st dev c v =
     st\<lparr>allocation_iter_count := allocation_iter_count st + 1,
        g_regions := (g_regions st)[dev := g_regions st ! dev @ [c]],
        g_sums := (g_sums st)[dev := g_sums st ! dev + v],
        g_assigned := mark_assigned (g_assigned st) c,
        total_assigned := total_assigned st + 1\<rparr>"

lemma greedy_step_grown:
  assumes "get_developer_with_min_sum (g_sums st) = Some min_dev"
    and "(if get_adjacent_free_cells ord (g_regions st ! min_dev) (g_assigned st) n m = []
          then find_developer_with_adjacent_cells ord (g_regions st) (g_assigned st) n m
          else (int min_dev, get_adjacent_free_cells ord (g_regions st ! min_dev) (g_assigned st) n m))
         = (int dev, adj)"
    and "adj \<noteq> []" and "choose_best_cell adj mat (g_sums st) (int dev) = Some c"
    and "cell_value mat c = Some v"
  shows "greedy_step ord mat n m st = Some (Continue (grown st dev c v))"
proof (cases "get_adjacent_free_cells ord (g_regions st ! min_dev) (g_assigned st) n m = []")
  case True
  then have "find_developer_with_adjacent_cells ord (g_regions st) (g_assigned st) n m = (int dev, adj)"
    using assms(2) by simp
  then show ?thesis
    using True assms(1,3,4,5) by (simp add: greedy_step_def assign_best_cell_def Let_def grown_def)
next
  case False
  then have "int min_dev = int dev"
    "get_adjacent_free_cells ord (g_regions st ! min_dev) (g_assigned st) n m = adj"
    using assms(2) by auto
  then show ?thesis
    using False assms(1,3,4,5) by (simp add: greedy_step_def assign_best_cell_def Let_def grown_def)
qed

lemma concat_grow:
  assumes "length rs = 4" and "dev < 4"
  shows "set (concat (rs[dev := rs ! dev @ [c]])) = insert c (set (concat rs))"
    and "length (concat (rs[dev := rs ! dev @ [c]])) = Suc (length (concat rs))"
    and "distinct (concat rs) \<Longrightarrow> c \<notin> set (concat rs) \<Longrightarrow> distinct (concat (rs[dev := rs ! dev @ [c]]))"
proof -
  obtain r0 r1 r2 r3 where rs: "rs = [r0, r1, r2, r3]" using assms(1) by (rule length4_cases)
  show "set (concat (rs[dev := rs ! dev @ [c]])) = insert c (set (concat rs))"
    using less4_cases [OF assms(2)] by (elim disjE) (auto simp: rs)
  show "length (concat (rs[dev := rs ! dev @ [c]])) = Suc (length (concat rs))"
    using less4_cases [OF assms(2)] by (elim disjE) (auto simp: rs)
  show "distinct (concat (rs[dev := rs ! dev @ [c]]))"
    if "distinct (concat rs)" "c \<notin> set (concat rs)"
    using less4_cases [OF assms(2)] that by (elim disjE) (auto simp: rs)
qed

lemma ginv_grown:
  assumes "ginv n m st" and "dev < 4" and "in_bounds n m c" and "\<not> is_assigned (g_assigned st) c"
    and "x \<in> set (g_regions st ! dev)" and "adjacent x c"
  shows "ginv n m (grown st dev c v)"
proof -
  let ?rs = "g_regions st" and ?rs' = "(g_regions st)[dev := g_regions st ! dev @ [c]]"
  have inv: "length ?rs = 4" "length (g_sums st) = 4" "dims n m (g_assigned st)"
    "distinct (concat ?rs)"
    "set (concat ?rs) = {c. in_bounds n m c \<and> is_assigned (g_assigned st) c}"
    "total_assigned st = length (concat ?rs)"
    "\<forall>r \<in> set ?rs. r \<noteq> [] \<and> edge_connected (set r)"
    "allocation_iter_count st + 4 = total_assigned st"
    using assms(1) by (simp_all add: ginv_def)
  have fresh: "c \<notin> set (concat ?rs)" using inv(5) assms(4) by simp
  have set': "set (concat ?rs') = {y. in_bounds n m y \<and> is_assigned (mark_assigned (g_assigned st) c) y}"
    using concat_grow(1) [OF inv(1) assms(2)] inv(5) is_assigned_mark [OF inv(3) assms(3)] assms(3)
    by auto
  have regions': "r \<noteq> [] \<and> edge_connected (set r)" if "r \<in> set ?rs'" for r
  proof -
    from that have "r = ?rs ! dev @ [c] \<or> r \<in> set ?rs"
      using set_update_subset_insert [of ?rs dev] by auto
    then show ?thesis
    proof
      assume r: "r = ?rs ! dev @ [c]"
      have "edge_connected (set (?rs ! dev))" using inv(1,7) assms(2) by simp
      then have "edge_connected (insert c (set (?rs ! dev)))"
        using assms(5,6) by (rule edge_connected_insert)
      then show ?thesis using r by simp
    next
      assume "r \<in> set ?rs"
      then show ?thesis using inv(7) by simp
    qed
  qed
  show ?thesis
    unfolding ginv_def grown_def
    using inv(1,2,6,8) dims_mark [OF inv(3)] concat_grow(2) [OF inv(1) assms(2)]
      concat_grow(3) [OF inv(1) assms(2) inv(4) fresh] set' regions'
    by simp
qed

lemma ginv_card:
  assumes "ginv n m st"
  shows "card (set (concat (g_regions st))) = total_assigned st"
    and "set (concat (g_regions st)) \<subseteq> {c. in_bounds n m c}"
proof -
  have "distinct (concat (g_regions st))" "total_assigned st = length (concat (g_regions st))"
    using assms by (simp_all add: ginv_def)
  then show "card (set (concat (g_regions st))) = total_assigned st"
    using distinct_card [of "concat (g_regions st)"] by linarith
  have "set (concat (g_regions st)) = {c. in_bounds n m c \<and> is_assigned (g_assigned st) c}"
    using assms by (simp add: ginv_def)
  then show "set (concat (g_regions st)) \<subseteq> {c. in_bounds n m c}" by blast
qed

lemma ginv_total_le:
  assumes "ginv n m st"
  shows "total_assigned st \<le> n * m"
  using card_mono [OF finite_in_bounds ginv_card(2) [OF assms]] ginv_card(1) [OF assms]
  by (simp only: card_in_bounds)

lemma ginv_full:
  assumes "ginv n m st" and "total_assigned st = n * m"
  shows "is_partition n m (g_regions st)"
proof -
  have "card (set (concat (g_regions st))) = card {c. in_bounds n m c}"
    using ginv_card(1) [OF assms(1)] assms(2) by (simp only: card_in_bounds)
  then have "set (concat (g_regions st)) = {c. in_bounds n m c}"
    using ginv_card(2) [OF assms(1)] finite_in_bounds card_subset_eq by blast
  moreover have "distinct (concat (g_regions st))" "length (g_regions st) = 4"
    using assms(1) by (simp_all add: ginv_def)
  ultimately show ?thesis by (simp only: is_partition_def simp_thms)
qed

text \<open>
  While a cell is unassigned, the iteration does not leave the loop: it assigns one
  cell that no region holds yet to one developer.
\<close>

lemma greedy_step_continue:
  assumes "rect mat n m" and "order_ok ord" and "ginv n m st" and "total_assigned st < n * m"
  shows "\<exists>dev c v. greedy_step ord mat n m st = Some (Continue (grown st dev c v)) \<and> dev < 4 \<and>
           in_bounds n m c \<and> c \<notin> set (concat (g_regions st)) \<and> ginv n m (grown st dev c v)"
proof -
  let ?rs = "g_regions st" and ?a = "g_assigned st"
  let ?A = "set (concat ?rs)"
  let ?adj = "\<lambda>dev. get_adjacent_free_cells ord (?rs ! dev) ?a n m"
  have inv: "length ?rs = 4" "length (g_sums st) = 4" "distinct (concat ?rs)"
    "?A = {c. in_bounds n m c \<and> is_assigned ?a c}"
    "total_assigned st = length (concat ?rs)" "\<forall>r \<in> set ?rs. r \<noteq> []"
    using assms(3) by (simp_all add: ginv_def)
  \<comment> \<open>the developer with the smallest sum\<close>
  have "g_sums st \<noteq> []" using inv(2) by auto
  then have "Min (set (g_sums st)) \<in> set (g_sums st)" by simp
  then obtain min_dev where min_dev:
    "get_developer_with_min_sum (g_sums st) = Some min_dev" "min_dev < 4"
    using py_index_mem [of "Min (set (g_sums st))" "g_sums st"] inv(2) \<open>g_sums st \<noteq> []\<close>
    by (auto simp: get_developer_with_min_sum_def)
  \<comment> \<open>some region has a free neighbour\<close>
  have "?rs ! 0 \<in> set ?rs" using inv(1) by simp
  then have "hd (?rs ! 0) \<in> ?A" using inv(6) by (metis hd_in_set UN_I set_concat)
  moreover have "?A \<subseteq> {c. in_bounds n m c}" by (rule ginv_card(2) [OF assms(3)])
  ultimately obtain x0 where x0: "x0 \<in> ?A" "in_bounds n m x0" by blast
  have "card ?A < card {c. in_bounds n m c}"
    using assms(4) ginv_card(1) [OF assms(3)] by (simp only: card_in_bounds)
  then have "\<not> {c. in_bounds n m c} \<subseteq> ?A"
    using card_mono [of ?A "{c. in_bounds n m c}"] finite_subset [OF _ finite_in_bounds, of ?A n m]
      \<open>?A \<subseteq> {c. in_bounds n m c}\<close> by (meson card_mono finite_set not_le)
  then obtain u where u: "in_bounds n m u" "u \<notin> ?A" by blast
  obtain x y where xy: "x \<in> ?A" "in_bounds n m y" "y \<notin> ?A" "adjacent x y"
    using grid_frontier [OF x0 u] by blast
  have free_y: "\<not> is_assigned ?a y" using xy(2,3) inv(4) by blast
  from xy(1) obtain r where "r \<in> set ?rs" "x \<in> set r" by auto
  then obtain d0 where d0: "d0 < 4" "x \<in> set (?rs ! d0)"
    using inv(1) by (metis in_set_conv_nth)
  have "y \<in> set (?adj d0)"
    using get_adjacent_free_cells_set [OF assms(2)] xy(2,4) free_y d0(2) by auto
  then have some: "\<exists>dev \<in> set [0, 1, 2, 3]. ?adj dev \<noteq> []"
    using less4_cases [OF d0(1)] by auto
  \<comment> \<open>the developer that grows\<close>
  have "\<exists>dev. dev < 4 \<and> ?adj dev \<noteq> [] \<and>
          (if ?adj min_dev = [] then find_developer_with_adjacent_cells ord ?rs ?a n m
           else (int min_dev, ?adj min_dev)) = (int dev, ?adj dev)"
  proof (cases "?adj min_dev = []")
    case True
    obtain dev where "dev \<in> set [0, 1, 2, 3]"
      "find_developer_from ord ?rs ?a n m [0, 1, 2, 3] = (int dev, ?adj dev)" "?adj dev \<noteq> []"
      using find_developer_from_some [OF some] by blast
    then show ?thesis
      using True by (intro exI [of _ dev]) (auto simp: find_developer_with_adjacent_cells_def)
  next
    case False
    then show ?thesis using min_dev(2) by (intro exI [of _ min_dev]) simp
  qed
  then obtain dev where dev: "dev < 4" "?adj dev \<noteq> []"
    "(if ?adj min_dev = [] then find_developer_with_adjacent_cells ord ?rs ?a n m
      else (int min_dev, ?adj min_dev)) = (int dev, ?adj dev)"
    by blast
  \<comment> \<open>the cell it takes\<close>
  have adj_cells: "\<forall>c \<in> set (?adj dev). in_bounds n m c"
    using get_adjacent_free_cells_set [OF assms(2)] by auto
  have dev_ok: "0 \<le> int dev" "int dev < int (length (g_sums st))"
    using dev(1) inv(2) by simp_all
  obtain c where c: "c \<in> set (?adj dev)" "choose_best_cell (?adj dev) mat (g_sums st) (int dev) = Some c"
    using choose_best_cell_ok [OF assms(1) dev(2) adj_cells dev_ok] by blast
  have cprop: "in_bounds n m c" "\<not> is_assigned ?a c" "\<exists>x \<in> set (?rs ! dev). adjacent x c"
    using c(1) get_adjacent_free_cells_set [OF assms(2), of "?rs ! dev" ?a n m] by auto
  then obtain x' where x': "x' \<in> set (?rs ! dev)" "adjacent x' c" by blast
  have cv: "cell_value mat c = Some (cost mat c)"
    using cell_value_in_bounds [OF assms(1) cprop(1)] .
  have "greedy_step ord mat n m st = Some (Continue (grown st dev c (cost mat c)))"
    using greedy_step_grown [OF min_dev(1) dev(3) dev(2) c(2) cv] .
  moreover have "ginv n m (grown st dev c (cost mat c))"
    using ginv_grown [OF assms(3) dev(1) cprop(1,2) x'] .
  moreover have "c \<notin> ?A" using cprop(2) inv(4) by blast
  ultimately show ?thesis using dev(1) cprop(1) by blast
qed


text \<open>The loop runs until every cell is assigned.\<close>

lemma greedy_loop_complete:
  "rect mat n m \<Longrightarrow> order_ok ord \<Longrightarrow> ginv n m st \<Longrightarrow>
   \<exists>st'. greedy_loop ord mat n m st = Some st' \<and> ginv n m st' \<and> total_assigned st' = n * m"
proof (induction ord mat n m st rule: greedy_loop.induct)
  case (1 ord mat n m st)
  show ?case
  proof (cases "total_assigned st < n * m")
    case False
    then have "total_assigned st = n * m" using ginv_total_le [OF "1.prems"(3)] by simp
    then show ?thesis
      using "1.prems"(3) by (simp add: greedy_loop.simps [of ord mat n m st])
  next
    case True
    obtain dev c v where step: "greedy_step ord mat n m st = Some (Continue (grown st dev c v))"
      and inv': "ginv n m (grown st dev c v)"
      using greedy_step_continue [OF "1.prems"(1,2,3) True] by blast
    have "greedy_loop ord mat n m st = greedy_loop ord mat n m (grown st dev c v)"
      using True step by (simp add: greedy_loop.simps [of ord mat n m st])
    then show ?thesis
      using "1.IH" [OF True step refl "1.prems"(1,2) inv'] by simp
  qed
qed

section \<open>Greedy builder: seeding\<close>

text \<open>The state after the seeding loop, on a rectangular matrix.\<close>

definition seeded_state :: "matrix \<Rightarrow> nat \<Rightarrow> nat \<Rightarrow> greedy_state" where
  "seeded_state mat n m =
     \<lparr>g_regions = [[(0, 0)], [(0, int m - 1)], [(int n - 1, 0)], [(int n - 1, int m - 1)]],
      g_sums = [cost mat (0, 0), cost mat (0, int m - 1), cost mat (int n - 1, 0),
                cost mat (int n - 1, int m - 1)],
      g_assigned =
        mark_assigned (mark_assigned (mark_assigned (mark_assigned
          (replicate n (replicate m False)) (0, 0)) (0, int m - 1)) (int n - 1, 0))
          (int n - 1, int m - 1),
      allocation_iter_count = 0, total_assigned = 0\<rparr>"

lemma corners_in_bounds:
  assumes "0 < n" and "0 < m"
  shows "in_bounds n m (0, 0)" "in_bounds n m (0, int m - 1)" "in_bounds n m (int n - 1, 0)"
    "in_bounds n m (int n - 1, int m - 1)"
  using assms by (simp_all add: in_bounds_def)

lemma seeding_result:
  assumes "rect mat n m" and "0 < n" and "0 < m"
  shows "fold_opt (seed_step mat n m) [0, 1, 2, 3] (greedy_init n m) = Some (seeded_state mat n m)"
proof -
  note cv = corners_in_bounds [OF assms(2,3), THEN cell_value_in_bounds [OF assms(1)]]
  show ?thesis
    using cv
    by (simp add: seed_step_def start_positions_def greedy_init_def seeded_state_def Let_def
        numeral_2_eq_2 numeral_3_eq_3)
qed

lemma ginv_seeded:
  assumes "2 \<le> n" and "2 \<le> m"
  shows "ginv n m ((seeded_state mat n m)\<lparr>total_assigned := 4\<rparr>)"
proof -
  let ?c0 = "(0, 0) :: cell" and ?c1 = "(0, int m - 1)" and ?c2 = "(int n - 1, 0)"
    and ?c3 = "(int n - 1, int m - 1)"
  let ?a0 = "replicate n (replicate m False)"
  let ?a1 = "mark_assigned ?a0 ?c0"
  let ?a2 = "mark_assigned ?a1 ?c1"
  let ?a3 = "mark_assigned ?a2 ?c2"
  let ?a4 = "mark_assigned ?a3 ?c3"
  have pos: "0 < n" "0 < m" using assms by simp_all
  note inb = corners_in_bounds [OF pos]
  have d: "dims n m ?a0" "dims n m ?a1" "dims n m ?a2" "dims n m ?a3" "dims n m ?a4"
    by (simp_all add: dims_init dims_mark)
  have marked: "is_assigned ?a4 x \<longleftrightarrow> x = ?c3 \<or> x = ?c2 \<or> x = ?c1 \<or> x = ?c0"
    if "in_bounds n m x" for x
    using that is_assigned_mark [OF d(4) inb(4) that] is_assigned_mark [OF d(3) inb(3) that]
      is_assigned_mark [OF d(2) inb(2) that] is_assigned_mark [OF d(1) inb(1) that]
      is_assigned_init [OF that]
    by simp
  have set_eq: "{?c0, ?c1, ?c2, ?c3} = {c. in_bounds n m c \<and> is_assigned ?a4 c}"
    using marked inb by blast
  have dist: "distinct [?c0, ?c1, ?c2, ?c3]" using assms by simp
  show ?thesis
    unfolding ginv_def seeded_state_def
    using d(5) dist set_eq by (simp add: edge_connected_single)
qed

text \<open>
  The states at the head of the growth loop during a run of \<open>greedy_allocation\<close>:
  the seeded state with \<open>total_assigned = 4\<close>, and every state that an iteration
  which does not leave the loop produces from such a state.
\<close>

inductive greedy_reachable :: "set_order \<Rightarrow> matrix \<Rightarrow> nat \<Rightarrow> nat \<Rightarrow> greedy_state \<Rightarrow> bool"
  for ord :: set_order and mat :: matrix and n :: nat and m :: nat
where
  seeded: "fold_opt (seed_step mat n m) [0, 1, 2, 3] (greedy_init n m) = Some st \<Longrightarrow>
           greedy_reachable ord mat n m (st\<lparr>total_assigned := 4\<rparr>)"
| grown: "greedy_reachable ord mat n m st \<Longrightarrow> total_assigned st < n * m \<Longrightarrow>
          greedy_step ord mat n m st = Some (Continue st') \<Longrightarrow>
          greedy_reachable ord mat n m st'"


lemma greedy_allocation_result:
  assumes "rect mat n m" and "order_ok ord" and "2 \<le> n" and "2 \<le> m"
  shows "\<exists>st. greedy_allocation ord mat = Some (g_regions st, allocation_iter_count st) \<and>
           ginv n m st \<and> total_assigned st = n * m"
proof -
  have pos: "0 < n" "0 < m" using assms(3,4) by simp_all
  obtain row0 rest where mat: "mat = row0 # rest" "length row0 = m" "row0 \<noteq> []"
    using assms(1) pos by (rule rect_nonempty)
  have len: "length mat = n" using assms(1) by (simp add: rect_def)
  obtain st where st: "greedy_loop ord mat n m ((seeded_state mat n m)\<lparr>total_assigned := 4\<rparr>) = Some st"
    "ginv n m st" "total_assigned st = n * m"
    using greedy_loop_complete [OF assms(1,2) ginv_seeded [OF assms(3,4)]] by blast
  have "greedy_allocation ord mat = Some (g_regions st, allocation_iter_count st)"
    using seeding_result [OF assms(1) pos] st(1) mat len
    by (simp add: greedy_allocation_def)
  then show ?thesis using st(2,3) by blast
qed

section \<open>Greedy builder: the claims\<close>



text \<open>
  With distinct seeds the regions returned by \<open>greedy_allocation\<close> are a partition
  of the grid into four non-empty edge-connected regions.
\<close>

lemma greedy_allocation_partition:
  assumes "rect mat n m" and "2 \<le> n" and "2 \<le> m" and "order_ok ord"
  shows "\<exists>rs it. greedy_allocation ord mat = Some (rs, it) \<and> is_partition n m rs \<and>
           (\<forall>r \<in> set rs. r \<noteq> [] \<and> edge_connected (set r))"
proof -
  obtain st where st: "greedy_allocation ord mat = Some (g_regions st, allocation_iter_count st)"
    "ginv n m st" "total_assigned st = n * m"
    using greedy_allocation_result [OF assms(1,4,2,3)] by blast
  have "is_partition n m (g_regions st)" using ginv_full [OF st(2,3)] .
  moreover have "\<forall>r \<in> set (g_regions st). r \<noteq> [] \<and> edge_connected (set r)"
    using st(2) by (simp add: ginv_def)
  ultimately show ?thesis using st(1) by blast
qed

lemma greedy_allocation_rect:
  assumes "rect mat n m" and "0 < n" and "0 < m"
  shows "greedy_allocation ord mat =
      (case greedy_loop ord mat n m ((seeded_state mat n m)\<lparr>total_assigned := 4\<rparr>) of
         None \<Rightarrow> None
       | Some st \<Rightarrow> Some (g_regions st, allocation_iter_count st))"
proof -
  obtain row0 rest where mat: "mat = row0 # rest" "length row0 = m" "row0 \<noteq> []"
    using assms by (rule rect_nonempty)
  have len: "length mat = n" using assms(1) by (simp add: rect_def)
  show ?thesis
    using seeding_result [OF assms] mat len by (simp add: greedy_allocation_def)
qed

text \<open>
  Claim C4 is not met by the code. On the \<open>1 \<times> 4\<close> matrix \<open>[[1, 2, 3, 4]]\<close> the
  corner formulas give \<open>(0, 0), (0, 3), (0, 0), (0, 3)\<close>. The seeding loop puts
  \<open>(0, 0)\<close> into the regions of developers 1 and 3 and \<open>(0, 3)\<close> into those of
  developers 2 and 4, and counts each cost twice: the sums are \<open>[1, 4, 1, 4]\<close>.
\<close>

theorem greedy_seeding_repeats_corners:
  "fold_opt (seed_step [[1, 2, 3, 4]] 1 4) [0, 1, 2, 3] (greedy_init 1 4) =
     Some \<lparr>g_regions = [[(0, 0)], [(0, 3)], [(0, 0)], [(0, 3)]],
           g_sums = [1, 4, 1, 4],
           g_assigned = [[True, False, False, True]],
           allocation_iter_count = 0, total_assigned = 0\<rparr>"
  by (simp add: seed_step_def start_positions_def greedy_init_def cell_value_def py_get_def
      mark_assigned_def Let_def eval_nat_numeral)

text \<open>
  Claim C3 is not met by the code either, for the same reason. On \<open>[[1, 2, 3, 4]]\<close>
  the growth loop ends at once without \<open>break\<close>, since \<open>total_assigned\<close> starts at 4,
  the number of cells. The regions that are returned overlap and leave the cells
  \<open>(0, 1)\<close> and \<open>(0, 2)\<close> out, whatever the iteration order of the sets.
\<close>

theorem greedy_degenerate_grid_overlap:
  "greedy_allocation ord [[1, 2, 3, 4]] = Some ([[(0, 0)], [(0, 3)], [(0, 0)], [(0, 3)]], 0) \<and>
   \<not> disjoint_cover 1 4 [[(0, 0)], [(0, 3)], [(0, 0)], [(0, 3)]] \<and>
   set (([[(0, 0)], [(0, 3)], [(0, 0)], [(0, 3)]] :: regions) ! 0)
     \<inter> set (([[(0, 0)], [(0, 3)], [(0, 0)], [(0, 3)]] :: regions) ! 2) \<noteq> {} \<and>
   ((0, 1) :: cell) \<notin> set (concat [[(0, 0)], [(0, 3)], [(0, 0)], [(0, 3)]])"
proof -
  have r: "rect [[1, 2, 3, 4]] 1 4" by (simp add: rect_def)
  have loop: "greedy_loop ord [[1, 2, 3, 4]] 1 4 (st\<lparr>total_assigned := 4\<rparr>)
                = Some (st\<lparr>total_assigned := 4\<rparr>)" for st
    by (subst greedy_loop.simps) simp
  have run: "greedy_allocation ord [[1, 2, 3, 4]] = Some ([[(0, 0)], [(0, 3)], [(0, 0)], [(0, 3)]], 0)"
    unfolding greedy_allocation_rect [OF r zero_less_one zero_less_numeral] loop
    by (simp add: seeded_state_def)
  have "\<not> is_partition 1 4 [[(0, 0)], [(0, 3)], [(0, 0)], [(0, 3)]]"
    by (simp add: is_partition_def)
  then have "\<not> disjoint_cover 1 4 [[(0, 0)], [(0, 3)], [(0, 0)], [(0, 3)]]"
    by (simp add: disjoint_cover_iff)
  then show ?thesis using run by simp
qed

theorem greedy_degenerate_grid_overlap_witness:
  "greedy_allocation remdups [[1, 2, 3, 4]] = Some ([[(0, 0)], [(0, 3)], [(0, 0)], [(0, 3)]], 0) \<and>
   \<not> disjoint_cover 1 4 [[(0, 0)], [(0, 3)], [(0, 0)], [(0, 3)]]"
  using greedy_degenerate_grid_overlap [of remdups] by simp

section \<open>Exhaustive search: the enumeration of labelings\<close>

text \<open>
  The position of a label tuple in the enumeration is its value as a base-4 number,
  the label of the first cell being the most significant digit.
\<close>

fun label_number :: "nat list \<Rightarrow> nat" where
  "label_number [] = 0"
| "label_number (d # ls) = d * 4 ^ length ls + label_number ls"

lemma product_labels_Suc:
  "product_labels (Suc k) =
     map ((#) 0) (product_labels k) @ map ((#) 1) (product_labels k)
       @ map ((#) 2) (product_labels k) @ map ((#) 3) (product_labels k)"
  by simp

lemma length_product_labels: "length (product_labels k) = 4 ^ k"
  by (induction k) simp_all

lemma set_product_labels:
  "set (product_labels k) = {ls. length ls = k \<and> (\<forall>d \<in> set ls. d < 4)}"
proof (induction k)
  case 0
  show ?case by auto
next
  case (Suc k)
  show ?case
  proof (rule set_eqI)
    fix ls :: "nat list"
    show "ls \<in> set (product_labels (Suc k)) \<longleftrightarrow> ls \<in> {ls. length ls = Suc k \<and> (\<forall>d \<in> set ls. d < 4)}"
    proof (cases ls)
      case Nil
      then show ?thesis by auto
    next
      case (Cons d rest)
      have "d < 4 \<longleftrightarrow> d = 0 \<or> d = 1 \<or> d = 2 \<or> d = 3" by arith
      then show ?thesis
        unfolding product_labels_Suc using Suc by (auto simp: Cons)
    qed
  qed
qed

lemma product_labels_nth:
  assumes "ls \<in> set (product_labels k)"
  shows "label_number ls < 4 ^ k \<and> product_labels k ! label_number ls = ls"
  using assms
proof (induction k arbitrary: ls)
  case 0
  then show ?case by simp
next
  case (Suc k)
  let ?P = "product_labels k"
  from Suc.prems obtain d rest where ls: "ls = d # rest" "d < 4" "rest \<in> set ?P"
    unfolding set_product_labels by (cases ls) auto
  have rest: "label_number rest < 4 ^ k" "?P ! label_number rest = rest"
    using Suc.IH [OF ls(3)] by simp_all
  have len: "length rest = k" using ls(3) by (simp add: set_product_labels)
  have lenP: "length ?P = 4 ^ k" by (rule length_product_labels)
  let ?i = "label_number rest"
  have "d = 0 \<or> d = 1 \<or> d = 2 \<or> d = 3" using ls(2) by arith
  then have "product_labels (Suc k) ! (d * 4 ^ k + ?i) = d # rest"
    unfolding product_labels_Suc using rest lenP
    by (elim disjE) (simp_all add: nth_append)
  moreover have "d * 4 ^ k + ?i < 4 ^ Suc k"
  proof -
    have "d * 4 ^ k \<le> 3 * 4 ^ k" using ls(2) by simp
    then have "d * 4 ^ k + ?i < 3 * 4 ^ k + 4 ^ k"
      using rest(1) by (rule add_le_less_mono)
    then show ?thesis by simp
  qed
  ultimately show ?case by (simp add: ls(1) len)
qed

lemma label_number_inj:
  assumes "a \<in> set (product_labels k)" and "b \<in> set (product_labels k)"
    and "label_number a = label_number b"
  shows "a = b"
  using product_labels_nth [OF assms(1)] product_labels_nth [OF assms(2)] assms(3) by metis

lemma product_labels_index:
  "i < 4 ^ k \<Longrightarrow> label_number (product_labels k ! i) = i"
proof (induction k arbitrary: i)
  case 0
  then show ?case by simp
next
  case (Suc k)
  let ?P = "product_labels k"
  have lenP: "length ?P = 4 ^ k" by (rule length_product_labels)
  define q where "q = i div 4 ^ k"
  define r where "r = i mod 4 ^ k"
  have i: "i = q * 4 ^ k + r" unfolding q_def r_def by (rule div_mult_mod_eq [symmetric])
  have r: "r < 4 ^ k" by (simp add: r_def)
  have "i < 4 * 4 ^ k" using Suc.prems by simp
  then have "q < 4" unfolding q_def by (rule less_mult_imp_div_less)
  then have q: "q = 0 \<or> q = 1 \<or> q = 2 \<or> q = 3" by arith
  have "?P ! r \<in> set ?P" using r lenP by simp
  then have len: "length (?P ! r) = k" by (simp add: set_product_labels)
  have "product_labels (Suc k) ! (q * 4 ^ k + r) = q # (?P ! r)"
    unfolding product_labels_Suc using q r lenP
    by (elim disjE) (simp_all add: nth_append)
  then show ?case using Suc.IH [OF r] len by (simp add: i)
qed

section \<open>Exhaustive search: the regions of a labeling\<close>

text \<open>The cells that carry the label \<open>dev\<close>, in row-major order.\<close>

definition region_of :: "nat list \<Rightarrow> nat \<Rightarrow> nat \<Rightarrow> cell list" where
  "region_of labels m dev =
     map (cell_of_index m) (filter (\<lambda>idx. labels ! idx = dev) [0..<length labels])"

lemma region_of_snoc:
  "region_of (ls @ [l]) m dev = region_of ls m dev @ (if l = dev then [cell_of_index m (length ls)] else [])"
proof -
  have "filter (\<lambda>idx. (ls @ [l]) ! idx = dev) [0..<length ls]
          = filter (\<lambda>idx. ls ! idx = dev) [0..<length ls]"
    by (rule filter_cong) (simp_all add: nth_append)
  then show ?thesis by (simp add: region_of_def)
qed

lemma labels_to_regions_snoc:
  "labels_to_regions (ls @ [l]) n m =
     (labels_to_regions ls n m)[l := labels_to_regions ls n m ! l @ [cell_of_index m (length ls)]]"
  by (simp add: labels_to_regions_def enumerate_append_eq)

lemma length_labels_to_regions: "length (labels_to_regions ls n m) = 4"
  by (induction ls rule: rev_induct) (simp_all add: labels_to_regions_snoc, simp add: labels_to_regions_def)

lemma labels_to_regions_nth:
  assumes "\<forall>l \<in> set ls. l < 4" and "dev < 4"
  shows "labels_to_regions ls n m ! dev = region_of ls m dev"
  using assms(1)
proof (induction ls rule: rev_induct)
  case Nil
  have "dev = 0 \<or> dev = 1 \<or> dev = 2 \<or> dev = 3" using assms(2) by arith
  then show ?case by (auto simp: labels_to_regions_def region_of_def)
next
  case (snoc l ls)
  then have IH: "labels_to_regions ls n m ! dev = region_of ls m dev" and l: "l < 4" by simp_all
  have "l < length (labels_to_regions ls n m)" using l by (simp add: length_labels_to_regions)
  then show ?case
    using IH assms(2)
    by (cases "l = dev") (simp_all add: labels_to_regions_snoc region_of_snoc length_labels_to_regions)
qed

lemma labels_to_regions_eq:
  assumes "\<forall>l \<in> set ls. l < 4"
  shows "labels_to_regions ls n m = [region_of ls m 0, region_of ls m 1, region_of ls m 2, region_of ls m 3]"
proof -
  obtain a b c d where rs: "labels_to_regions ls n m = [a, b, c, d]"
    using length_labels_to_regions by (rule length4_cases)
  have "a = region_of ls m 0" "b = region_of ls m 1" "c = region_of ls m 2" "d = region_of ls m 3"
    using labels_to_regions_nth [OF assms, of 0 n m] labels_to_regions_nth [OF assms, of 1 n m]
      labels_to_regions_nth [OF assms, of 2 n m] labels_to_regions_nth [OF assms, of 3 n m]
    by (simp_all add: rs)
  then show ?thesis using rs by simp
qed

lemma set_region_of:
  "set (region_of ls m dev) = cell_of_index m ` {idx. idx < length ls \<and> ls ! idx = dev}"
  by (auto simp: region_of_def)

lemma distinct_region_of:
  assumes "0 < m"
  shows "distinct (region_of ls m dev)"
proof -
  have "inj_on (cell_of_index m) A" for A
    using cell_of_index_inj [OF assms] by (auto simp: inj_on_def)
  then show ?thesis by (simp add: region_of_def distinct_map)
qed

lemma region_of_disjoint:
  assumes "0 < m" and "d1 \<noteq> d2"
  shows "set (region_of ls m d1) \<inter> set (region_of ls m d2) = {}"
proof -
  have "False" if "x \<in> set (region_of ls m d1)" "x \<in> set (region_of ls m d2)" for x
  proof -
    from that(1) obtain i where i: "x = cell_of_index m i" "ls ! i = d1"
      unfolding set_region_of by blast
    from that(2) obtain j where j: "x = cell_of_index m j" "ls ! j = d2"
      unfolding set_region_of by blast
    have "i = j" using cell_of_index_inj [OF assms(1), of i j] i(1) j(1) by simp
    then show False using i(2) j(2) assms(2) by simp
  qed
  then show ?thesis by blast
qed

lemma is_partition_labels:
  assumes "0 < m" and "length ls = n * m" and "\<forall>l \<in> set ls. l < 4"
  shows "is_partition n m (labels_to_regions ls n m)"
proof -
  let ?r = "region_of ls m"
  have eq: "labels_to_regions ls n m = [?r 0, ?r 1, ?r 2, ?r 3]"
    by (rule labels_to_regions_eq [OF assms(3)])
  have dj: "set (?r 0) \<inter> set (?r 1) = {}" "set (?r 0) \<inter> set (?r 2) = {}"
    "set (?r 0) \<inter> set (?r 3) = {}" "set (?r 1) \<inter> set (?r 2) = {}"
    "set (?r 1) \<inter> set (?r 3) = {}" "set (?r 2) \<inter> set (?r 3) = {}"
    by (rule region_of_disjoint [OF assms(1)], simp)+
  have d: "distinct (concat [?r 0, ?r 1, ?r 2, ?r 3])"
    using distinct_region_of [OF assms(1)] dj
    by (simp add: Int_Un_distrib)
  have "\<And>idx. idx < length ls \<Longrightarrow> ls ! idx = 0 \<or> ls ! idx = 1 \<or> ls ! idx = 2 \<or> ls ! idx = 3"
    using assms(3) by (metis less4_cases nth_mem)
  then have "{idx. idx < length ls} =
      {idx. idx < length ls \<and> ls ! idx = 0} \<union> {idx. idx < length ls \<and> ls ! idx = 1} \<union>
      {idx. idx < length ls \<and> ls ! idx = 2} \<union> {idx. idx < length ls \<and> ls ! idx = 3}"
    by blast
  then have "cell_of_index m ` {idx. idx < length ls} = set (concat [?r 0, ?r 1, ?r 2, ?r 3])"
    unfolding set_concat by (simp add: set_region_of image_Un Un_assoc)
  moreover have "cell_of_index m ` {idx. idx < length ls} = set (grid_cells n m)"
    using assms(2) by (simp add: grid_cells_row_major lessThan_def [symmetric] atLeast0LessThan)
  ultimately have "set (concat [?r 0, ?r 1, ?r 2, ?r 3]) = {c. in_bounds n m c}"
    by (simp only: set_grid_cells)
  then show ?thesis using d unfolding eq is_partition_def by simp
qed

section \<open>Exhaustive search: the result of the enumeration loop\<close>

text \<open>
  A labeling passes the two filters of the loop when no region is empty and every
  region passes \<open>check_connected\<close>. Its objective value is the imbalance of its
  regions.
\<close>

definition labels_valid :: "nat \<Rightarrow> nat \<Rightarrow> nat list \<Rightarrow> bool" where
  "labels_valid n m ls \<longleftrightarrow>
     \<not> (\<exists>region \<in> set (labels_to_regions ls n m). length region = 0) \<and>
     all_regions_connected (labels_to_regions ls n m) n m"

definition labels_objective :: "matrix \<Rightarrow> nat \<Rightarrow> nat \<Rightarrow> nat list \<Rightarrow> int" where
  "labels_objective mat n m ls = imbalance mat (labels_to_regions ls n m)"

definition well_labeled :: "nat \<Rightarrow> nat \<Rightarrow> nat list \<Rightarrow> bool" where
  "well_labeled n m ls \<longleftrightarrow> length ls = n * m \<and> (\<forall>l \<in> set ls. l < 4)"

lemma calculate_objective_value_labels:
  assumes "rect mat n m" and "0 < m" and "well_labeled n m ls"
  shows "calculate_objective_value mat (labels_to_regions ls n m) = Some (labels_objective mat n m ls)"
proof -
  have "wf_regions n m (labels_to_regions ls n m)"
    using is_partition_wf [OF is_partition_labels [OF assms(2)]] assms(3)
    by (simp add: well_labeled_def)
  then show ?thesis
    using region_sums_wf [OF assms(1)]
    by (simp add: calculate_objective_value_def labels_objective_def imbalance_def)
qed

text \<open>
  After the labelings \<open>lss\<close> the loop state is determined by the position of the
  best labeling so far, if there is one: the first valid labeling whose objective
  value is the least among the valid labelings of \<open>lss\<close>.
\<close>

definition state_of :: "matrix \<Rightarrow> nat \<Rightarrow> nat \<Rightarrow> nat list list \<Rightarrow> nat option \<Rightarrow> bf_state" where
  "state_of mat n m lss best =
     (case best of
        None \<Rightarrow> \<lparr>best_regions = None, best_objective = None, combinations_checked = length lss\<rparr>
      | Some i \<Rightarrow>
          \<lparr>best_regions = Some (labels_to_regions (lss ! i) n m),
           best_objective = Some (labels_objective mat n m (lss ! i)),
           combinations_checked = length lss\<rparr>)"

definition first_best :: "matrix \<Rightarrow> nat \<Rightarrow> nat \<Rightarrow> nat list list \<Rightarrow> nat option \<Rightarrow> bool" where
  "first_best mat n m lss best \<longleftrightarrow>
     (case best of
        None \<Rightarrow> \<forall>ls \<in> set lss. \<not> labels_valid n m ls
      | Some i \<Rightarrow>
          i < length lss \<and> labels_valid n m (lss ! i) \<and>
          (\<forall>j < length lss. labels_valid n m (lss ! j) \<longrightarrow>
             labels_objective mat n m (lss ! i) \<le> labels_objective mat n m (lss ! j)) \<and>
          (\<forall>j < i. labels_valid n m (lss ! j) \<longrightarrow>
             labels_objective mat n m (lss ! i) < labels_objective mat n m (lss ! j)))"

lemma bf_loop_append:
  "bf_loop mat n m (xs @ ys) st =
     (case bf_loop mat n m xs st of None \<Rightarrow> None | Some st' \<Rightarrow> bf_loop mat n m ys st')"
  by (induction xs arbitrary: st) (auto split: option.splits)

lemma bf_step_invalid:
  assumes "\<not> labels_valid n m ls"
  shows "bf_step mat n m st ls = Some (st\<lparr>combinations_checked := combinations_checked st + 1\<rparr>)"
  using assms by (auto simp: bf_step_def labels_valid_def Let_def)

lemma bf_step_valid:
  assumes "labels_valid n m ls"
    and "calculate_objective_value mat (labels_to_regions ls n m) = Some v"
  shows "bf_step mat n m st ls =
           Some (if below_best v (best_objective st)
                 then st\<lparr>combinations_checked := combinations_checked st + 1,
                         best_objective := Some v,
                         best_regions := Some (labels_to_regions ls n m)\<rparr>
                 else st\<lparr>combinations_checked := combinations_checked st + 1\<rparr>)"
  using assms by (auto simp: bf_step_def labels_valid_def Let_def)

lemma bf_step_state_of:
  assumes "rect mat n m" and "0 < m" and "well_labeled n m ls" and "first_best mat n m lss best"
  shows "\<exists>best'. bf_step mat n m (state_of mat n m lss best) ls
                   = Some (state_of mat n m (lss @ [ls]) best') \<and>
                 first_best mat n m (lss @ [ls]) best'"
proof (cases "labels_valid n m ls")
  case False
  have "bf_step mat n m (state_of mat n m lss best) ls = Some (state_of mat n m (lss @ [ls]) best)"
    using assms(4) by (cases best) (simp_all add: bf_step_invalid [OF False] state_of_def first_best_def nth_append)
  moreover have "first_best mat n m (lss @ [ls]) best"
    using assms(4) False
    by (cases best) (auto simp: first_best_def nth_append less_Suc_eq)
  ultimately show ?thesis by blast
next
  case True
  let ?v = "labels_objective mat n m ls"
  note step = bf_step_valid [OF True calculate_objective_value_labels [OF assms(1,2,3)]]
  show ?thesis
  proof (cases best)
    case None
    have "bf_step mat n m (state_of mat n m lss best) ls
            = Some (state_of mat n m (lss @ [ls]) (Some (length lss)))"
      by (simp add: step None state_of_def below_best_def)
    moreover have "first_best mat n m (lss @ [ls]) (Some (length lss))"
      using assms(4) True None
      by (auto simp: first_best_def nth_append less_Suc_eq)
    ultimately show ?thesis by blast
  next
    case (Some i)
    let ?b = "labels_objective mat n m (lss ! i)"
    have fb: "i < length lss" "labels_valid n m (lss ! i)"
      "\<forall>j < length lss. labels_valid n m (lss ! j) \<longrightarrow> ?b \<le> labels_objective mat n m (lss ! j)"
      "\<forall>j < i. labels_valid n m (lss ! j) \<longrightarrow> ?b < labels_objective mat n m (lss ! j)"
      using assms(4) Some by (simp_all add: first_best_def)
    show ?thesis
    proof (cases "?v < ?b")
      case less: True
      have "bf_step mat n m (state_of mat n m lss best) ls
              = Some (state_of mat n m (lss @ [ls]) (Some (length lss)))"
        using less by (simp add: step Some state_of_def below_best_def)
      moreover have "first_best mat n m (lss @ [ls]) (Some (length lss))"
        unfolding first_best_def using True less fb(3)
        by (auto simp: nth_append less_Suc_eq)
      ultimately show ?thesis by blast
    next
      case False
      have "bf_step mat n m (state_of mat n m lss best) ls
              = Some (state_of mat n m (lss @ [ls]) (Some i))"
        using False fb(1) by (simp add: step Some state_of_def below_best_def nth_append)
      moreover have "first_best mat n m (lss @ [ls]) (Some i)"
        unfolding first_best_def using False fb
        by (auto simp: nth_append less_Suc_eq)
      ultimately show ?thesis by blast
    qed
  qed
qed

lemma bf_loop_state_of:
  assumes "rect mat n m" and "0 < m"
  shows "\<forall>ls \<in> set lss. well_labeled n m ls \<Longrightarrow>
         \<exists>best. bf_loop mat n m lss
                  \<lparr>best_regions = None, best_objective = None, combinations_checked = 0\<rparr>
                  = Some (state_of mat n m lss best) \<and>
                first_best mat n m lss best"
proof (induction lss rule: rev_induct)
  case Nil
  have "first_best mat n m [] None" by (simp add: first_best_def)
  moreover have "bf_loop mat n m [] \<lparr>best_regions = None, best_objective = None, combinations_checked = 0\<rparr>
                   = Some (state_of mat n m [] None)"
    by (simp add: state_of_def)
  ultimately show ?case by blast
next
  case (snoc ls lss)
  then obtain best where best:
    "bf_loop mat n m lss \<lparr>best_regions = None, best_objective = None, combinations_checked = 0\<rparr>
       = Some (state_of mat n m lss best)" "first_best mat n m lss best"
    by auto
  have "well_labeled n m ls" using snoc.prems by simp
  then obtain best' where "bf_step mat n m (state_of mat n m lss best) ls
      = Some (state_of mat n m (lss @ [ls]) best')" "first_best mat n m (lss @ [ls]) best'"
    using bf_step_state_of [OF assms _ best(2)] by blast
  then show ?case using best(1) by (auto simp: bf_loop_append)
qed

section \<open>Exhaustive search: valid labelings and valid partitions\<close>

text \<open>
  A valid partition: four non-empty, edge-connected regions that together hold
  every cell of the grid exactly once.
\<close>

definition valid_partition :: "nat \<Rightarrow> nat \<Rightarrow> regions \<Rightarrow> bool" where
  "valid_partition n m rs \<longleftrightarrow>
     disjoint_cover n m rs \<and> (\<forall>r \<in> set rs. r \<noteq> [] \<and> edge_connected (set r))"

lemma labels_valid_iff:
  assumes "0 < m" and "well_labeled n m ls"
  shows "labels_valid n m ls \<longleftrightarrow> valid_partition n m (labels_to_regions ls n m)"
proof -
  let ?rs = "labels_to_regions ls n m"
  have p: "is_partition n m ?rs"
    using is_partition_labels [OF assms(1)] assms(2) by (simp add: well_labeled_def)
  have "distinct r \<and> (\<forall>x \<in> set r. in_bounds n m x)" if "r \<in> set ?rs" for r
    using p that by (auto simp: is_partition_def distinct_concat_iff)
  then have "check_connected r n m \<longleftrightarrow> edge_connected (set r)" if "r \<in> set ?rs" for r
    using check_connected_iff that by blast
  then have "labels_valid n m ls \<longleftrightarrow> (\<forall>r \<in> set ?rs. r \<noteq> [] \<and> edge_connected (set r))"
    by (auto simp: labels_valid_def all_regions_connected_def)
  then show ?thesis using p by (simp add: valid_partition_def disjoint_cover_iff)
qed

text \<open>A grid of at least four cells has a valid labeling.\<close>

definition simple_labels :: "nat \<Rightarrow> nat list" where
  "simple_labels k = [0, 1, 2] @ replicate (k - 3) 3"

lemma simple_labels_nth:
  assumes "idx < k" and "4 \<le> k"
  shows "simple_labels k ! idx = (if idx < 3 then idx else 3)"
proof (cases "idx < 3")
  case True
  then have "idx = 0 \<or> idx = 1 \<or> idx = 2" by arith
  then show ?thesis by (auto simp: simple_labels_def)
next
  case False
  then show ?thesis using assms by (simp add: simple_labels_def nth_append)
qed

lemma simple_labels_well: "4 \<le> n * m \<Longrightarrow> well_labeled n m (simple_labels (n * m))"
  by (auto simp: well_labeled_def simple_labels_def)

lemma simple_labels_regions:
  assumes "4 \<le> k"
  shows "set (region_of (simple_labels k) m 0) = {cell_of_index m 0}"
    and "set (region_of (simple_labels k) m 1) = {cell_of_index m 1}"
    and "set (region_of (simple_labels k) m 2) = {cell_of_index m 2}"
    and "set (region_of (simple_labels k) m 3) = run_cells m 3 k"
proof -
  have len: "length (simple_labels k) = k" using assms by (simp add: simple_labels_def)
  have idx: "{idx. idx < k \<and> simple_labels k ! idx = d} = (if d < 3 then {d} else if d = 3 then {3..<k} else {})"
    for d
    using assms simple_labels_nth [OF _ assms] by (auto split: if_splits)
  show "set (region_of (simple_labels k) m 0) = {cell_of_index m 0}"
    "set (region_of (simple_labels k) m 1) = {cell_of_index m 1}"
    "set (region_of (simple_labels k) m 2) = {cell_of_index m 2}"
    "set (region_of (simple_labels k) m 3) = run_cells m 3 k"
    unfolding set_region_of len idx by (simp_all add: run_cells_def)
qed

lemma tail_run_connected:
  assumes "0 < m" and "4 \<le> n * m"
  shows "edge_connected (run_cells m 3 (n * m))"
proof (rule run_cells_connected [OF assms(1)])
  show "(n * m - 1) div m = 3 div m \<or> m < n * m - 3"
  proof (cases "m < n * m - 3")
    case True
    then show ?thesis by simp
  next
    case False
    have n: "0 < n" using assms(2) by (cases n) simp_all
    then have "n * m = (n - 1) * m + m" by (cases n) simp_all
    then have le: "(n - 1) * m \<le> 3" using False by simp
    have "(n * m - 1) div m = n - 1"
    proof -
      have eq: "n * m - 1 = (n - 1) * m + (m - 1)"
        using \<open>n * m = (n - 1) * m + m\<close> assms(1) by simp
      have "((n - 1) * m + (m - 1)) div m = (n - 1) + (m - 1) div m"
        using assms(1) by (intro div_mult_self3) simp
      moreover have "(m - 1) div m = 0" using assms(1) by simp
      ultimately show ?thesis unfolding eq by linarith
    qed
    moreover have "3 div m = n - 1"
    proof -
      have "3 < n * m" using assms(2) by simp
      then have "3 < (n - 1) * m + m" using \<open>n * m = (n - 1) * m + m\<close> by simp
      then have "3 div m < n" 
        using assms(1) n by (metis \<open>3 < n * m\<close> div_less_iff_less_mult)
      moreover have "n - 1 \<le> 3 div m"
        using le assms(1) by (metis div_le_mono div_mult_self_is_m)
      ultimately show ?thesis by simp
    qed
    ultimately show ?thesis by simp
  qed
qed

lemma simple_labels_valid:
  assumes "0 < m" and "4 \<le> n * m"
  shows "labels_valid n m (simple_labels (n * m))"
proof -
  let ?ls = "simple_labels (n * m)"
  have w: "well_labeled n m ?ls" by (rule simple_labels_well [OF assms(2)])
  then have eq: "labels_to_regions ?ls n m
                   = [region_of ?ls m 0, region_of ?ls m 1, region_of ?ls m 2, region_of ?ls m 3]"
    using labels_to_regions_eq by (simp add: well_labeled_def)
  note sets = simple_labels_regions [OF assms(2), of m]
  have "3 < n * m" using assms(2) by simp
  then have "run_cells m 3 (n * m) \<noteq> {}" by (simp add: run_cells_def)
  then have nonempty: "\<forall>r \<in> set (labels_to_regions ?ls n m). r \<noteq> []"
    unfolding eq using sets by (auto simp only: set_simps set_empty [symmetric])
  have conn: "\<forall>r \<in> set (labels_to_regions ?ls n m). edge_connected (set r)"
    unfolding eq using sets tail_run_connected [OF assms] by (simp add: edge_connected_single)
  have "is_partition n m (labels_to_regions ?ls n m)"
    using is_partition_labels [OF assms(1)] w by (simp add: well_labeled_def)
  then have "valid_partition n m (labels_to_regions ?ls n m)"
    using nonempty conn by (simp add: valid_partition_def disjoint_cover_iff)
  then show ?thesis using labels_valid_iff [OF assms(1) w] by simp
qed

text \<open>Every partition of the grid into four regions is the partition of a labeling.\<close>

definition labels_of_partition :: "regions \<Rightarrow> nat \<Rightarrow> nat \<Rightarrow> nat list" where
  "labels_of_partition P n m =
     map (\<lambda>idx. if cell_of_index m idx \<in> set (P ! 0) then 0
                else if cell_of_index m idx \<in> set (P ! 1) then 1
                else if cell_of_index m idx \<in> set (P ! 2) then 2 else 3) [0..<n * m]"

lemma labels_of_partition_well: "well_labeled n m (labels_of_partition P n m)"
  by (auto simp: well_labeled_def labels_of_partition_def)

lemma in_bounds_index:
  "in_bounds n m c \<longleftrightarrow> (\<exists>idx < n * m. c = cell_of_index m idx)"
proof -
  have "in_bounds n m c \<longleftrightarrow> c \<in> set (grid_cells n m)" by (simp add: set_grid_cells)
  also have "\<dots> \<longleftrightarrow> c \<in> cell_of_index m ` {0..<n * m}"
    by (simp add: grid_cells_row_major)
  also have "\<dots> \<longleftrightarrow> (\<exists>idx < n * m. c = cell_of_index m idx)" by auto
  finally show ?thesis .
qed

lemma labels_of_partition_regions:
  assumes "is_partition n m P" and "dev < 4"
  shows "set (region_of (labels_of_partition P n m) m dev) = set (P ! dev)"
proof -
  let ?ls = "labels_of_partition P n m"
  from assms(1) have "length P = 4" by (simp add: is_partition_def)
  then obtain p0 p1 p2 p3 where P: "P = [p0, p1, p2, p3]" by (rule length4_cases)
  have d: "distinct (p0 @ p1 @ p2 @ p3)"
    and cover: "set p0 \<union> set p1 \<union> set p2 \<union> set p3 = {c. in_bounds n m c}"
    using assms(1) by (auto simp: is_partition_def P)
  have len: "length ?ls = n * m" by (simp add: labels_of_partition_def)
  have lab: "?ls ! idx = (if cell_of_index m idx \<in> set p0 then 0
                else if cell_of_index m idx \<in> set p1 then 1
                else if cell_of_index m idx \<in> set p2 then 2 else 3)" if "idx < n * m" for idx
    using that by (simp add: labels_of_partition_def P)
  have grid: "cell_of_index m idx \<in> set p0 \<union> set p1 \<union> set p2 \<union> set p3" if "idx < n * m" for idx
    using that cover in_bounds_index [of n m "cell_of_index m idx"] by blast
  have sub: "c \<in> set (P ! dev) \<Longrightarrow> \<exists>idx < n * m. c = cell_of_index m idx" for c
    using cover in_bounds_index [of n m c] less4_cases [OF assms(2)] by (auto simp: P)
  show ?thesis
  proof (rule set_eqI)
    fix c
    show "c \<in> set (region_of ?ls m dev) \<longleftrightarrow> c \<in> set (P ! dev)"
    proof
      assume "c \<in> set (region_of ?ls m dev)"
      then obtain idx where idx: "idx < n * m" "?ls ! idx = dev" "c = cell_of_index m idx"
        unfolding set_region_of len by blast
      then show "c \<in> set (P ! dev)"
        using lab [OF idx(1)] grid [OF idx(1)] less4_cases [OF assms(2)]
        by (auto simp: P split: if_splits)
    next
      assume c: "c \<in> set (P ! dev)"
      then obtain idx where idx: "idx < n * m" "c = cell_of_index m idx" using sub by blast
      have "?ls ! idx = dev"
        using lab [OF idx(1)] c idx(2) d less4_cases [OF assms(2)]
        by (auto simp: P)
      then show "c \<in> set (region_of ?ls m dev)"
        unfolding set_region_of len using idx by blast
    qed
  qed
qed

lemma rsum_distinct: "distinct r \<Longrightarrow> rsum mat r = sum (cost mat) (set r)"
  by (simp add: rsum_def sum_list_distinct_conv_sum_set)

lemma imbalance_same_sets:
  assumes "is_partition n m P" and "is_partition n m Q"
    and "\<forall>dev < 4. set (P ! dev) = set (Q ! dev)"
  shows "imbalance mat P = imbalance mat Q"
proof -
  have len: "length P = 4" "length Q = 4" using assms(1,2) by (simp_all add: is_partition_def)
  have dist: "distinct (P ! dev)" "distinct (Q ! dev)" if "dev < 4" for dev
    using assms(1,2) that len by (auto simp: is_partition_def distinct_concat_iff)
  have "map (rsum mat) P = map (rsum mat) Q"
  proof (rule nth_equalityI)
    show "length (map (rsum mat) P) = length (map (rsum mat) Q)" using len by simp
  next
    fix dev assume "dev < length (map (rsum mat) P)"
    then have dev: "dev < 4" using len by simp
    then show "map (rsum mat) P ! dev = map (rsum mat) Q ! dev"
      using len dist [OF dev] assms(3) by (simp add: rsum_distinct)
  qed
  then show ?thesis by (simp add: imbalance_def)
qed

lemma valid_partition_labels:
  assumes "0 < m" and "valid_partition n m P"
  shows "\<exists>ls. well_labeled n m ls \<and> labels_valid n m ls \<and>
              labels_objective mat n m ls = imbalance mat P"
proof -
  let ?ls = "labels_of_partition P n m"
  let ?rs = "labels_to_regions ?ls n m"
  have P: "is_partition n m P" "\<forall>r \<in> set P. r \<noteq> [] \<and> edge_connected (set r)"
    using assms(2) by (simp_all add: valid_partition_def disjoint_cover_iff)
  have w: "well_labeled n m ?ls" by (rule labels_of_partition_well)
  have rs: "is_partition n m ?rs"
    using is_partition_labels [OF assms(1)] w by (simp add: well_labeled_def)
  have nth: "?rs ! dev = region_of ?ls m dev" if "dev < 4" for dev
    using labels_to_regions_nth [OF _ that] w by (simp add: well_labeled_def)
  have sets: "\<forall>dev < 4. set (?rs ! dev) = set (P ! dev)"
    using nth labels_of_partition_regions [OF P(1)] by simp
  have len: "length ?rs = 4" "length P = 4" using rs P(1) by (simp_all add: is_partition_def)
  have "r \<noteq> [] \<and> edge_connected (set r)" if "r \<in> set ?rs" for r
  proof -
    from that obtain dev where dev: "dev < 4" "r = ?rs ! dev"
      using len(1) by (metis in_set_conv_nth)
    then have "set r = set (P ! dev)" "P ! dev \<in> set P" using sets len(2) by simp_all
    then show ?thesis using P(2) by (metis set_empty)
  qed
  then have "valid_partition n m ?rs"
    using rs by (simp add: valid_partition_def disjoint_cover_iff)
  then have "labels_valid n m ?ls" using labels_valid_iff [OF assms(1) w] by simp
  moreover have "labels_objective mat n m ?ls = imbalance mat P"
    unfolding labels_objective_def by (rule imbalance_same_sets [OF rs P(1) sets])
  ultimately show ?thesis using w by blast
qed

text \<open>Four non-empty regions need four cells.\<close>

lemma valid_partition_cells:
  assumes "valid_partition n m rs"
  shows "4 \<le> n * m"
proof -
  have p: "is_partition n m rs" and ne: "\<forall>r \<in> set rs. r \<noteq> []"
    using assms by (simp_all add: valid_partition_def disjoint_cover_iff)
  have "length rs = 4" using p by (simp add: is_partition_def)
  then obtain a b c d where rs: "rs = [a, b, c, d]" by (rule length4_cases)
  have "length a \<ge> 1" "length b \<ge> 1" "length c \<ge> 1" "length d \<ge> 1"
    using ne by (simp_all add: rs Suc_le_eq)
  then have "4 \<le> length (concat rs)" by (simp add: rs)
  moreover have "length (concat rs) = card {c. in_bounds n m c}"
    using p distinct_card [of "concat rs"] by (simp add: is_partition_def)
  ultimately show ?thesis by (simp add: card_in_bounds)
qed

section \<open>Exhaustive search: the claim\<close>

lemma well_labeled_product: "ls \<in> set (product_labels (n * m)) \<longleftrightarrow> well_labeled n m ls"
  by (simp add: set_product_labels well_labeled_def)

lemma brute_force_allocation_rect:
  assumes "rect mat n m" and "0 < n" and "0 < m" and "n * m \<le> 16"
  shows "\<exists>best. first_best mat n m (product_labels (n * m)) best \<and>
           brute_force_allocation mat =
             Some (case best of None \<Rightarrow> [[], [], [], []]
                   | Some i \<Rightarrow> labels_to_regions (product_labels (n * m) ! i) n m,
                   4 ^ (n * m))"
proof -
  let ?lss = "product_labels (n * m)"
  obtain row0 rest where mat: "mat = row0 # rest" "length row0 = m" "row0 \<noteq> []"
    using assms(1,2,3) by (rule rect_nonempty)
  have len: "length mat = n" using assms(1) by (simp add: rect_def)
  have "\<forall>ls \<in> set ?lss. well_labeled n m ls" by (simp add: well_labeled_product)
  then obtain best where best:
    "bf_loop mat n m ?lss \<lparr>best_regions = None, best_objective = None, combinations_checked = 0\<rparr>
       = Some (state_of mat n m ?lss best)" "first_best mat n m ?lss best"
    using bf_loop_state_of [OF assms(1,3)] by blast
  have "brute_force_allocation mat =
             Some (case best of None \<Rightarrow> [[], [], [], []]
                   | Some i \<Rightarrow> labels_to_regions (product_labels (n * m) ! i) n m,
                   4 ^ (n * m))"
    using mat len assms(4) best(1)
    by (cases best)
       (simp_all add: brute_force_allocation_def Let_def state_of_def length_product_labels)
  then show ?thesis using best(2) by blast
qed

lemma calculate_objective_value_partition:
  assumes "rect mat n m" and "valid_partition n m P"
  shows "calculate_objective_value mat P = Some (imbalance mat P)"
proof -
  have "wf_regions n m P"
    using assms(2) is_partition_wf by (simp add: valid_partition_def disjoint_cover_iff)
  then show ?thesis
    using region_sums_wf [OF assms(1)] by (simp add: calculate_objective_value_def imbalance_def)
qed

text \<open>
  What the loop returns on a grid of at least four cells: the regions of a valid
  labeling, of least imbalance among all valid partitions, and among the valid
  labelings of that imbalance the one enumerated first.
\<close>

lemma brute_force_best:
  assumes "rect mat n m" and "0 < m" and "4 \<le> n * m"
    and "first_best mat n m (product_labels (n * m)) best"
  shows "\<exists>i. best = Some i \<and> i < 4 ^ (n * m) \<and>
           well_labeled n m (product_labels (n * m) ! i) \<and>
           label_number (product_labels (n * m) ! i) = i \<and>
           valid_partition n m (labels_to_regions (product_labels (n * m) ! i) n m) \<and>
           (\<forall>P. valid_partition n m P \<longrightarrow>
              imbalance mat (labels_to_regions (product_labels (n * m) ! i) n m) \<le> imbalance mat P) \<and>
           (\<forall>ls. well_labeled n m ls \<and> labels_valid n m ls \<and>
                 labels_objective mat n m ls
                   = imbalance mat (labels_to_regions (product_labels (n * m) ! i) n m)
                 \<longrightarrow> i \<le> label_number ls)"
proof -
  let ?lss = "product_labels (n * m)"
  have pos: "ls \<in> set ?lss \<Longrightarrow> label_number ls < length ?lss \<and> ?lss ! label_number ls = ls" for ls
    using product_labels_nth [of ls "n * m"] by (simp add: length_product_labels)
  have "simple_labels (n * m) \<in> set ?lss" "labels_valid n m (simple_labels (n * m))"
    using simple_labels_well [OF assms(3)] simple_labels_valid [OF assms(2,3)]
    by (simp_all add: well_labeled_product)
  then have "\<not> (\<forall>ls \<in> set ?lss. \<not> labels_valid n m ls)" by blast
  then have "best \<noteq> None" using assms(4) by (cases best) (simp_all add: first_best_def)
  then obtain i where i: "best = Some i" by auto
  let ?l = "?lss ! i"
  have fb: "i < length ?lss" "labels_valid n m ?l"
    "\<forall>j < length ?lss. labels_valid n m (?lss ! j) \<longrightarrow>
       labels_objective mat n m ?l \<le> labels_objective mat n m (?lss ! j)"
    "\<forall>j < i. labels_valid n m (?lss ! j) \<longrightarrow>
       labels_objective mat n m ?l < labels_objective mat n m (?lss ! j)"
    using assms(4) i by (simp_all add: first_best_def)
  have w: "well_labeled n m ?l"
    using fb(1) nth_mem [of i ?lss] by (simp add: well_labeled_product)
  have num: "label_number ?l = i"
    using fb(1) by (simp add: product_labels_index length_product_labels)
  have valid: "valid_partition n m (labels_to_regions ?l n m)"
    using labels_valid_iff [OF assms(2) w] fb(2) by simp
  have least: "imbalance mat (labels_to_regions ?l n m) \<le> imbalance mat P"
    if vp: "valid_partition n m P" for P
  proof -
    obtain ls where ls: "well_labeled n m ls" "labels_valid n m ls"
      "labels_objective mat n m ls = imbalance mat P"
      using valid_partition_labels [OF assms(2) vp] by blast
    then have "label_number ls < length ?lss" "?lss ! label_number ls = ls"
      using pos [of ls] by (simp_all add: well_labeled_product)
    then have "labels_objective mat n m ?l \<le> labels_objective mat n m ls"
      using fb(3) ls(2) by metis
    then show ?thesis using ls(3) by (simp add: labels_objective_def)
  qed
  have first: "i \<le> label_number ls"
    if "well_labeled n m ls \<and> labels_valid n m ls \<and>
        labels_objective mat n m ls = imbalance mat (labels_to_regions ?l n m)" for ls
  proof (rule ccontr)
    assume "\<not> i \<le> label_number ls"
    then have "label_number ls < i" by simp
    moreover have "?lss ! label_number ls = ls"
      using pos [of ls] that by (simp add: well_labeled_product)
    ultimately have "labels_objective mat n m ?l < labels_objective mat n m ls"
      using fb(4) that by metis
    then show False using that by (simp add: labels_objective_def)
  qed
  show ?thesis
    using i fb(1) w num valid least first by (simp add: length_product_labels)
qed

text \<open>
  Claim C1. On a rectangular matrix with at most 16 cells \<open>brute_force_allocation\<close>
  returns with the count \<open>4 ^ (n * m)\<close>. The result is four empty regions exactly
  when the grid has fewer than four cells. On a grid of at least four cells the
  result is a valid partition: four non-empty, pairwise disjoint, edge-connected
  regions that cover the grid. Its imbalance is the least among all valid
  partitions, and among the valid labelings that reach this imbalance the returned
  one comes first in the enumeration, the order of the base-4 numbers of the label
  tuples.
\<close>

theorem brute_force_optimal:
  assumes "rect mat n m" and "0 < n" and "0 < m" and "n * m \<le> 16"
  shows "\<exists>rs. brute_force_allocation mat = Some (rs, 4 ^ (n * m)) \<and>
           (rs = [[], [], [], []] \<longleftrightarrow> n * m < 4) \<and>
           (4 \<le> n * m \<longrightarrow>
              valid_partition n m rs \<and>
              (\<exists>v. calculate_objective_value mat rs = Some v \<and>
                 (\<forall>P. valid_partition n m P \<longrightarrow>
                    (\<exists>w. calculate_objective_value mat P = Some w \<and> v \<le> w))) \<and>
              (\<exists>labels. well_labeled n m labels \<and> rs = labels_to_regions labels n m \<and>
                 (\<forall>ls. well_labeled n m ls \<and> labels_valid n m ls \<and>
                       calculate_objective_value mat (labels_to_regions ls n m)
                         = calculate_objective_value mat rs
                       \<longrightarrow> label_number labels \<le> label_number ls)))"
proof -
  let ?lss = "product_labels (n * m)"
  obtain best where best: "first_best mat n m ?lss best"
    "brute_force_allocation mat =
       Some (case best of None \<Rightarrow> [[], [], [], []] | Some i \<Rightarrow> labels_to_regions (?lss ! i) n m,
             4 ^ (n * m))"
    using brute_force_allocation_rect [OF assms] by blast
  show ?thesis
  proof (cases "4 \<le> n * m")
    case True
    obtain i where i: "best = Some i" "well_labeled n m (?lss ! i)" "label_number (?lss ! i) = i"
      "valid_partition n m (labels_to_regions (?lss ! i) n m)"
      "\<forall>P. valid_partition n m P \<longrightarrow>
         imbalance mat (labels_to_regions (?lss ! i) n m) \<le> imbalance mat P"
      "\<forall>ls. well_labeled n m ls \<and> labels_valid n m ls \<and>
            labels_objective mat n m ls = imbalance mat (labels_to_regions (?lss ! i) n m)
            \<longrightarrow> i \<le> label_number ls"
      using brute_force_best [OF assms(1,3) True best(1)] by blast
    let ?rs = "labels_to_regions (?lss ! i) n m"
    have res: "brute_force_allocation mat = Some (?rs, 4 ^ (n * m))"
      using best(2) i(1) by simp
    have obj: "calculate_objective_value mat ?rs = Some (imbalance mat ?rs)"
      by (rule calculate_objective_value_partition [OF assms(1) i(4)])
    have "?rs \<noteq> [[], [], [], []]"
      using i(4) by (auto simp: valid_partition_def)
    moreover have "\<forall>P. valid_partition n m P \<longrightarrow>
                    (\<exists>w. calculate_objective_value mat P = Some w \<and> imbalance mat ?rs \<le> w)"
      using i(5) calculate_objective_value_partition [OF assms(1)] by simp
    moreover have "\<forall>ls. well_labeled n m ls \<and> labels_valid n m ls \<and>
                       calculate_objective_value mat (labels_to_regions ls n m)
                         = calculate_objective_value mat ?rs
                       \<longrightarrow> label_number (?lss ! i) \<le> label_number ls"
    proof (intro allI impI)
      fix ls
      assume a: "well_labeled n m ls \<and> labels_valid n m ls \<and>
                 calculate_objective_value mat (labels_to_regions ls n m)
                   = calculate_objective_value mat ?rs"
      then have "labels_objective mat n m ls = imbalance mat ?rs"
        using calculate_objective_value_labels [OF assms(1,3), of ls] obj by simp
      then show "label_number (?lss ! i) \<le> label_number ls"
        using i(3,6) a by simp
    qed
    ultimately show ?thesis
      using res True i(2,4) obj by (intro exI [of _ ?rs]) auto
  next
    case False
    have "best = None"
    proof (rule ccontr)
      assume "best \<noteq> None"
      then obtain i where i: "best = Some i" by auto
      then have "i < length ?lss" "labels_valid n m (?lss ! i)"
        using best(1) by (simp_all add: first_best_def)
      moreover then have "well_labeled n m (?lss ! i)"
        using nth_mem [of i ?lss] by (simp add: well_labeled_product)
      ultimately have "valid_partition n m (labels_to_regions (?lss ! i) n m)"
        using labels_valid_iff [OF assms(3)] by simp
      then show False using valid_partition_cells False by blast
    qed
    then show ?thesis using best(2) False by simp
  qed
qed

theorem brute_force_optimal_witness:
  "rect [[1, 2], [3, 4]] 2 2 \<and>
   (\<exists>rs. brute_force_allocation [[1, 2], [3, 4]] = Some (rs, 256) \<and> valid_partition 2 2 rs)"
proof -
  have r: "rect [[1, 2], [3, 4]] 2 2" by (simp add: rect_def)
  show ?thesis
    using brute_force_optimal [OF r] r by auto
qed

section \<open>Exhaustive search against the two heuristics\<close>

subsection \<open>Grids of fewer than four cells\<close>

text \<open>
  On a grid of fewer than four cells no labeling is valid, and the exhaustive
  search returns four empty regions, whose sums are all 0. An imbalance is never
  negative, so on these grids the exhaustive search is not above either heuristic.
\<close>

lemma empty_grid_results:
  assumes "mat = [] \<or> hd mat = []"
  shows "brute_force_allocation mat = Some ([[], [], [], []], 0)"
    and "greedy_allocation ord mat = Some ([[], [], [], []], 0)"
    and "two_stage_allocation ord mat max_iterations = Some ([[], [], [], []], 0)"
  using assms
  by (cases mat;
      simp add: brute_force_allocation_def greedy_allocation_def two_stage_allocation_def)+

lemma rect_empty:
  assumes "rect mat n m" and "n = 0 \<or> m = 0"
  shows "mat = [] \<or> hd mat = []"
  using assms by (cases mat) (auto simp: rect_def)

lemma objective_of_empty_regions: "calculate_objective_value mat [[], [], [], []] = Some 0"
  by (simp add: calculate_objective_value_def region_sums_def calculate_imbalance_def)

lemma calculate_imbalance_nonneg:
  assumes "sums \<noteq> []"
  shows "0 \<le> calculate_imbalance sums"
proof -
  have "hd sums \<in> set sums" using assms by simp
  then have "Min (set sums) \<le> hd sums" "hd sums \<le> Max (set sums)" by simp_all
  then show ?thesis by (simp add: calculate_imbalance_def)
qed

lemma objective_wf:
  assumes "rect mat n m" and "wf_regions n m rs"
  shows "calculate_objective_value mat rs = Some (imbalance mat rs)" and "0 \<le> imbalance mat rs"
proof -
  show "calculate_objective_value mat rs = Some (imbalance mat rs)"
    using region_sums_wf [OF assms] by (simp add: calculate_objective_value_def imbalance_def)
  have "rs \<noteq> []" using assms(2) by (auto simp: wf_regions_def)
  then show "0 \<le> imbalance mat rs"
    using calculate_imbalance_nonneg [of "map (rsum mat) rs"] by (simp add: imbalance_def)
qed

lemma brute_force_small:
  assumes "rect mat n m" and "0 < n" and "0 < m" and "n * m < 4"
  shows "brute_force_allocation mat = Some ([[], [], [], []], 4 ^ (n * m))"
proof -
  let ?lss = "product_labels (n * m)"
  have le: "n * m \<le> 16" using assms(4) by simp
  obtain best where best: "first_best mat n m ?lss best"
    "brute_force_allocation mat =
       Some (case best of None \<Rightarrow> [[], [], [], []] | Some i \<Rightarrow> labels_to_regions (?lss ! i) n m,
             4 ^ (n * m))"
    using brute_force_allocation_rect [OF assms(1,2,3) le] by blast
  have "best = None"
  proof (rule ccontr)
    assume "best \<noteq> None"
    then obtain i where i: "best = Some i" by auto
    then have "i < length ?lss" "labels_valid n m (?lss ! i)"
      using best(1) by (simp_all add: first_best_def)
    moreover then have "well_labeled n m (?lss ! i)"
      using nth_mem [of i ?lss] by (simp add: well_labeled_product)
    ultimately have "valid_partition n m (labels_to_regions (?lss ! i) n m)"
      using labels_valid_iff [OF assms(3)] by simp
    then show False using valid_partition_cells assms(4) by fastforce
  qed
  then show ?thesis using best(2) by simp
qed

text \<open>
  On a grid of at most four cells the growth loop of \<open>greedy_allocation\<close> does not run:
  \<open>total_assigned\<close> starts at 4. The corner seeds are returned as they are.
\<close>

lemma greedy_allocation_small:
  assumes "rect mat n m" and "0 < n" and "0 < m" and "n * m \<le> 4"
  shows "greedy_allocation ord mat =
           Some ([[(0, 0)], [(0, int m - 1)], [(int n - 1, 0)], [(int n - 1, int m - 1)]], 0)"
  using assms(4) unfolding greedy_allocation_rect [OF assms(1,2,3)]
  by (subst greedy_loop.simps) (simp add: seeded_state_def)

lemma corner_seeds_wf:
  assumes "0 < n" and "0 < m"
  shows "wf_regions n m [[(0, 0)], [(0, int m - 1)], [(int n - 1, 0)], [(int n - 1, int m - 1)]]"
  using corners_in_bounds [OF assms] by (simp add: wf_regions_def)

subsection \<open>A grid on which the two-stage optimizer goes below the exhaustive search\<close>

text \<open>
  On \<open>[[3, 1, 2], [2, 4, 4]]\<close> the Stage-1 split is
  \<open>[(0, 0), (0, 1)], [(0, 2), (1, 0)], [(1, 1)], [(1, 2)]\<close> with the sums 4, 4, 4, 4.
  Its second region is not connected, so it is no candidate of the exhaustive
  search. The 4096 labelings are checked in 16 blocks: \<open>not_better\<close> says that a
  labeling has an imbalance above \<open>v\<close>, or the imbalance \<open>v\<close> and a position in the
  enumeration not before \<open>first\<close>, or is not valid.
\<close>

definition not_better :: "matrix \<Rightarrow> nat \<Rightarrow> nat \<Rightarrow> int \<Rightarrow> nat \<Rightarrow> nat list \<Rightarrow> bool" where
  "not_better mat n m v first ls =
     (if v < labels_objective mat n m ls then True
      else if labels_objective mat n m ls = v \<and> first \<le> label_number ls then True
      else \<not> labels_valid n m ls)"

lemma two_by_three_chunk_00:
  "\<forall>rest \<in> set (product_labels 4). not_better [[3, 1, 2], [2, 4, 4]] 2 3 2 331 (0 # 0 # rest)"
  by code_simp

lemma two_by_three_chunk_01:
  "\<forall>rest \<in> set (product_labels 4). not_better [[3, 1, 2], [2, 4, 4]] 2 3 2 331 (0 # 1 # rest)"
  by code_simp

lemma two_by_three_chunk_02:
  "\<forall>rest \<in> set (product_labels 4). not_better [[3, 1, 2], [2, 4, 4]] 2 3 2 331 (0 # 2 # rest)"
  by code_simp

lemma two_by_three_chunk_03:
  "\<forall>rest \<in> set (product_labels 4). not_better [[3, 1, 2], [2, 4, 4]] 2 3 2 331 (0 # 3 # rest)"
  by code_simp

lemma two_by_three_chunk_10:
  "\<forall>rest \<in> set (product_labels 4). not_better [[3, 1, 2], [2, 4, 4]] 2 3 2 331 (1 # 0 # rest)"
  by code_simp

lemma two_by_three_chunk_11:
  "\<forall>rest \<in> set (product_labels 4). not_better [[3, 1, 2], [2, 4, 4]] 2 3 2 331 (1 # 1 # rest)"
  by code_simp

lemma two_by_three_chunk_12:
  "\<forall>rest \<in> set (product_labels 4). not_better [[3, 1, 2], [2, 4, 4]] 2 3 2 331 (1 # 2 # rest)"
  by code_simp

lemma two_by_three_chunk_13:
  "\<forall>rest \<in> set (product_labels 4). not_better [[3, 1, 2], [2, 4, 4]] 2 3 2 331 (1 # 3 # rest)"
  by code_simp

lemma two_by_three_chunk_20:
  "\<forall>rest \<in> set (product_labels 4). not_better [[3, 1, 2], [2, 4, 4]] 2 3 2 331 (2 # 0 # rest)"
  by code_simp

lemma two_by_three_chunk_21:
  "\<forall>rest \<in> set (product_labels 4). not_better [[3, 1, 2], [2, 4, 4]] 2 3 2 331 (2 # 1 # rest)"
  by code_simp

lemma two_by_three_chunk_22:
  "\<forall>rest \<in> set (product_labels 4). not_better [[3, 1, 2], [2, 4, 4]] 2 3 2 331 (2 # 2 # rest)"
  by code_simp

lemma two_by_three_chunk_23:
  "\<forall>rest \<in> set (product_labels 4). not_better [[3, 1, 2], [2, 4, 4]] 2 3 2 331 (2 # 3 # rest)"
  by code_simp

lemma two_by_three_chunk_30:
  "\<forall>rest \<in> set (product_labels 4). not_better [[3, 1, 2], [2, 4, 4]] 2 3 2 331 (3 # 0 # rest)"
  by code_simp

lemma two_by_three_chunk_31:
  "\<forall>rest \<in> set (product_labels 4). not_better [[3, 1, 2], [2, 4, 4]] 2 3 2 331 (3 # 1 # rest)"
  by code_simp

lemma two_by_three_chunk_32:
  "\<forall>rest \<in> set (product_labels 4). not_better [[3, 1, 2], [2, 4, 4]] 2 3 2 331 (3 # 2 # rest)"
  by code_simp

lemma two_by_three_chunk_33:
  "\<forall>rest \<in> set (product_labels 4). not_better [[3, 1, 2], [2, 4, 4]] 2 3 2 331 (3 # 3 # rest)"
  by code_simp

lemma product_labels_Suc_cases:
  assumes "ls \<in> set (product_labels (Suc k))"
  obtains d rest where "ls = d # rest" and "d < 4" and "rest \<in> set (product_labels k)"
  using assms unfolding set_product_labels by (cases ls) auto

lemma two_by_three_all:
  assumes "ls \<in> set (product_labels 6)"
  shows "not_better [[3, 1, 2], [2, 4, 4]] 2 3 2 331 ls"
proof -
  have "ls \<in> set (product_labels (Suc 5))" using assms by (simp add: eval_nat_numeral)
  then obtain d1 r1 where r1: "ls = d1 # r1" "d1 < 4" "r1 \<in> set (product_labels 5)"
    by (rule product_labels_Suc_cases)
  have "r1 \<in> set (product_labels (Suc 4))" using r1(3) by (simp add: eval_nat_numeral)
  then obtain d2 rest where r2: "r1 = d2 # rest" "d2 < 4" "rest \<in> set (product_labels 4)"
    by (rule product_labels_Suc_cases)
  note chunks =
    two_by_three_chunk_00 two_by_three_chunk_01 two_by_three_chunk_02 two_by_three_chunk_03
    two_by_three_chunk_10 two_by_three_chunk_11 two_by_three_chunk_12 two_by_three_chunk_13
    two_by_three_chunk_20 two_by_three_chunk_21 two_by_three_chunk_22 two_by_three_chunk_23
    two_by_three_chunk_30 two_by_three_chunk_31 two_by_three_chunk_32 two_by_three_chunk_33
  have "not_better [[3, 1, 2], [2, 4, 4]] 2 3 2 331 (d1 # d2 # rest)"
    using less4_cases [OF r1(2)] less4_cases [OF r2(2)] r2(3) chunks
    by (elim disjE) blast+
  then show ?thesis by (simp only: r1(1) r2(1))
qed

lemma two_by_three_brute_force:
  "brute_force_allocation [[3, 1, 2], [2, 4, 4]] =
     Some ([[(0, 0), (1, 0)], [(0, 1), (0, 2)], [(1, 1)], [(1, 2)]], 4096)"
proof -
  let ?M = "[[3, 1, 2], [2, 4, 4]] :: matrix"
  let ?L = "[0, 1, 1, 0, 2, 3] :: nat list"
  define lss where "lss = product_labels (2 * 3)"
  have six: "lss = product_labels 6" by (simp add: lss_def)
  have r: "rect ?M 2 3" by (simp add: rect_def)
  have pos: "(0::nat) < 2" "(0::nat) < 3" "(2::nat) * 3 \<le> 16" "(4::nat) \<le> 2 * 3" by simp_all
  obtain best where best: "first_best ?M 2 3 lss best"
    "brute_force_allocation ?M =
       Some (case best of None \<Rightarrow> [[], [], [], []] | Some i \<Rightarrow> labels_to_regions (lss ! i) 2 3,
             4 ^ (2 * 3))"
    using brute_force_allocation_rect [OF r pos(1,2,3)] unfolding lss_def [symmetric] by blast
  obtain i where i: "best = Some i" "i < 4 ^ (2 * 3)" "well_labeled 2 3 (lss ! i)"
    "label_number (lss ! i) = i"
    "valid_partition 2 3 (labels_to_regions (lss ! i) 2 3)"
    "\<forall>P. valid_partition 2 3 P \<longrightarrow>
       imbalance ?M (labels_to_regions (lss ! i) 2 3) \<le> imbalance ?M P"
    "\<forall>ls. well_labeled 2 3 ls \<and> labels_valid 2 3 ls \<and>
          labels_objective ?M 2 3 ls = imbalance ?M (labels_to_regions (lss ! i) 2 3)
          \<longrightarrow> i \<le> label_number ls"
    using brute_force_best [OF r pos(2,4)] best(1) unfolding lss_def [symmetric] by blast
  have L: "well_labeled 2 3 ?L" "labels_valid 2 3 ?L" "labels_objective ?M 2 3 ?L = 2"
    "label_number ?L = 331"
    by code_simp+
  have Lvalid: "valid_partition 2 3 (labels_to_regions ?L 2 3)"
    using labels_valid_iff [OF pos(2) L(1)] L(2) by simp
  have ivalid: "labels_valid 2 3 (lss ! i)"
    using labels_valid_iff [OF pos(2) i(3)] i(5) by simp
  have "lss ! i \<in> set (product_labels 6)"
    using i(3) well_labeled_product [of "lss ! i" 2 3] by simp
  then have nb: "not_better ?M 2 3 2 331 (lss ! i)" by (rule two_by_three_all)
  have "imbalance ?M (labels_to_regions (lss ! i) 2 3) \<le> imbalance ?M (labels_to_regions ?L 2 3)"
    using i(6) Lvalid by blast
  then have le: "labels_objective ?M 2 3 (lss ! i) \<le> 2"
    using L(3) by (simp only: labels_objective_def)
  have eq: "labels_objective ?M 2 3 (lss ! i) = 2" and ge: "331 \<le> i"
    using nb le ivalid i(4) by (auto simp: not_better_def split: if_splits)
  have "labels_objective ?M 2 3 ?L = imbalance ?M (labels_to_regions (lss ! i) 2 3)"
    using eq L(3) by (simp only: labels_objective_def)
  then have "i \<le> label_number ?L" using i(7) L(1,2) by blast
  then have "i = label_number ?L" using ge L(4) by simp
  moreover have "?L \<in> set (product_labels (2 * 3))" using L(1) by (simp only: well_labeled_product)
  ultimately have "lss ! i = ?L"
    using product_labels_nth [of ?L "2 * 3"] by (simp only: lss_def)
  moreover have "labels_to_regions ?L 2 3 = [[(0, 0), (1, 0)], [(0, 1), (0, 2)], [(1, 1)], [(1, 2)]]"
    by code_simp
  ultimately show ?thesis using best(2) i(1) by simp
qed

text \<open>
  Claim C2 does not hold as stated, for either heuristic. On the \<open>1 \<times> 4\<close> matrix
  \<open>[[5, 1, 1, 5]]\<close> every valid partition gives each developer one cell, so the
  exhaustive search returns imbalance \<open>5 - 1 = 4\<close>, while the greedy builder returns
  its colliding corner seeds \<open>[(0, 0)], [(0, 3)], [(0, 0)], [(0, 3)]\<close>, whose sums are
  all 5 and whose imbalance is 0. On the \<open>2 \<times> 3\<close> matrix \<open>[[3, 1, 2], [2, 4, 4]]\<close> the
  exhaustive search returns imbalance 2, while the two-stage optimizer returns its
  Stage-1 split with imbalance 0, whose second region \<open>[(0, 2), (1, 0)]\<close> is not
  connected. Neither result depends on the iteration order of the sets, since no
  cell is moved or added after the initial state.
\<close>

theorem brute_force_above_heuristics:
  "brute_force_allocation [[5, 1, 1, 5]] = Some ([[(0, 0)], [(0, 1)], [(0, 2)], [(0, 3)]], 256) \<and>
   calculate_objective_value [[5, 1, 1, 5]] [[(0, 0)], [(0, 1)], [(0, 2)], [(0, 3)]] = Some 4 \<and>
   greedy_allocation remdups [[5, 1, 1, 5]] = Some ([[(0, 0)], [(0, 3)], [(0, 0)], [(0, 3)]], 0) \<and>
   calculate_objective_value [[5, 1, 1, 5]] [[(0, 0)], [(0, 3)], [(0, 0)], [(0, 3)]] = Some 0 \<and>
   brute_force_allocation [[3, 1, 2], [2, 4, 4]] =
     Some ([[(0, 0), (1, 0)], [(0, 1), (0, 2)], [(1, 1)], [(1, 2)]], 4096) \<and>
   calculate_objective_value [[3, 1, 2], [2, 4, 4]]
     [[(0, 0), (1, 0)], [(0, 1), (0, 2)], [(1, 1)], [(1, 2)]] = Some 2 \<and>
   two_stage_allocation remdups [[3, 1, 2], [2, 4, 4]] 100 =
     Some ([[(0, 0), (0, 1)], [(0, 2), (1, 0)], [(1, 1)], [(1, 2)]], 1) \<and>
   calculate_objective_value [[3, 1, 2], [2, 4, 4]]
     [[(0, 0), (0, 1)], [(0, 2), (1, 0)], [(1, 1)], [(1, 2)]] = Some 0 \<and>
   \<not> check_connected [(0, 2), (1, 0)] 2 3"
proof -
  have "brute_force_allocation [[5, 1, 1, 5]] = Some ([[(0, 0)], [(0, 1)], [(0, 2)], [(0, 3)]], 256)"
    by code_simp
  moreover have "calculate_objective_value [[5, 1, 1, 5]] [[(0, 0)], [(0, 1)], [(0, 2)], [(0, 3)]] = Some 4"
    by code_simp
  moreover have "greedy_allocation remdups [[5, 1, 1, 5]] = Some ([[(0, 0)], [(0, 3)], [(0, 0)], [(0, 3)]], 0)"
    by code_simp
  moreover have "calculate_objective_value [[5, 1, 1, 5]] [[(0, 0)], [(0, 3)], [(0, 0)], [(0, 3)]] = Some 0"
    by code_simp
  moreover have "calculate_objective_value [[3, 1, 2], [2, 4, 4]]
     [[(0, 0), (1, 0)], [(0, 1), (0, 2)], [(1, 1)], [(1, 2)]] = Some 2"
    by code_simp
  moreover have "two_stage_allocation remdups [[3, 1, 2], [2, 4, 4]] 100 =
     Some ([[(0, 0), (0, 1)], [(0, 2), (1, 0)], [(1, 1)], [(1, 2)]], 1)"
    by code_simp
  moreover have "calculate_objective_value [[3, 1, 2], [2, 4, 4]]
     [[(0, 0), (0, 1)], [(0, 2), (1, 0)], [(1, 1)], [(1, 2)]] = Some 0"
    by code_simp
  moreover have "\<not> check_connected [(0, 2), (1, 0)] 2 3"
    by code_simp
  ultimately show ?thesis using two_by_three_brute_force by simp
qed

text \<open>
  Claim C2, amended. On a rectangular matrix with at most 16 cells the imbalance of
  the exhaustive search is at most the imbalance of the two-stage optimizer whenever
  the grid has fewer than four cells or the regions that the optimizer returns are
  all non-empty and edge-connected. It is at most the imbalance of the greedy
  builder whenever the grid has fewer than four cells or at least two rows and two
  columns.
\<close>

theorem brute_force_below_heuristics:
  assumes "rect mat n m" and "n * m \<le> 16" and "order_ok ord"
  shows "\<exists>b_rs b_count t_rs t_iterations vb vt.
           brute_force_allocation mat = Some (b_rs, b_count) \<and>
           two_stage_allocation ord mat max_iterations = Some (t_rs, t_iterations) \<and>
           calculate_objective_value mat b_rs = Some vb \<and>
           calculate_objective_value mat t_rs = Some vt \<and>
           (n * m < 4 \<or> (\<forall>r \<in> set t_rs. r \<noteq> [] \<and> edge_connected (set r)) \<longrightarrow> vb \<le> vt) \<and>
           (n * m < 4 \<or> (2 \<le> n \<and> 2 \<le> m) \<longrightarrow>
              (\<exists>g_rs g_iterations vg.
                 greedy_allocation ord mat = Some (g_rs, g_iterations) \<and>
                 calculate_objective_value mat g_rs = Some vg \<and> vb \<le> vg))"
proof -
  consider (empty) "n = 0 \<or> m = 0" | (small) "0 < n" "0 < m" "n * m < 4"
    | (large) "0 < n" "0 < m" "4 \<le> n * m"
    by (cases "n * m < 4") auto
  then show ?thesis
  proof cases
    case empty
    then have e: "mat = [] \<or> hd mat = []" using rect_empty [OF assms(1)] by simp
    show ?thesis
      using empty_grid_results(1) [OF e] empty_grid_results(2) [OF e, of ord]
        empty_grid_results(3) [OF e, of ord max_iterations] objective_of_empty_regions [of mat]
      by simp
  next
    case small
    have b: "brute_force_allocation mat = Some ([[], [], [], []], 4 ^ (n * m))"
      by (rule brute_force_small [OF assms(1) small])
    obtain t_rs t_it where t: "two_stage_allocation ord mat max_iterations = Some (t_rs, t_it)"
      "is_partition n m t_rs"
      using two_stage_result [OF assms(1) small(1,2) assms(3), of max_iterations] by blast
    note vt = objective_wf [OF assms(1) is_partition_wf [OF t(2)]]
    have le4: "n * m \<le> 4" using small(3) by simp
    note g = greedy_allocation_small [OF assms(1) small(1,2) le4, of ord]
    note vg = objective_wf [OF assms(1) corner_seeds_wf [OF small(1,2)]]
    show ?thesis
      using b t(1) vt g vg objective_of_empty_regions [of mat] by simp
  next
    case large
    let ?lss = "product_labels (n * m)"
    obtain best where best: "first_best mat n m ?lss best"
      "brute_force_allocation mat =
         Some (case best of None \<Rightarrow> [[], [], [], []] | Some i \<Rightarrow> labels_to_regions (?lss ! i) n m,
               4 ^ (n * m))"
      using brute_force_allocation_rect [OF assms(1) large(1,2) assms(2)] by blast
    obtain i where i: "best = Some i"
      "valid_partition n m (labels_to_regions (?lss ! i) n m)"
      "\<forall>P. valid_partition n m P \<longrightarrow>
         imbalance mat (labels_to_regions (?lss ! i) n m) \<le> imbalance mat P"
      using brute_force_best [OF assms(1) large(2,3) best(1)] by blast
    let ?b = "labels_to_regions (?lss ! i) n m"
    have b: "brute_force_allocation mat = Some (?b, 4 ^ (n * m))" using best(2) i(1) by simp
    have vb: "calculate_objective_value mat ?b = Some (imbalance mat ?b)"
      by (rule calculate_objective_value_partition [OF assms(1) i(2)])
    obtain t_rs t_it where t: "two_stage_allocation ord mat max_iterations = Some (t_rs, t_it)"
      "is_partition n m t_rs"
      using two_stage_result [OF assms(1) large(1,2) assms(3), of max_iterations] by blast
    note vt = objective_wf(1) [OF assms(1) is_partition_wf [OF t(2)]]
    have two: "imbalance mat ?b \<le> imbalance mat t_rs"
      if "\<forall>r \<in> set t_rs. r \<noteq> [] \<and> edge_connected (set r)"
    proof -
      have "valid_partition n m t_rs"
        using t(2) that by (simp add: valid_partition_def disjoint_cover_iff)
      then show ?thesis using i(3) by blast
    qed
    have greedy: "\<exists>g_rs g_iterations vg.
                 greedy_allocation ord mat = Some (g_rs, g_iterations) \<and>
                 calculate_objective_value mat g_rs = Some vg \<and> imbalance mat ?b \<le> vg"
      if big: "2 \<le> n \<and> 2 \<le> m"
    proof -
      obtain g_rs g_it where g: "greedy_allocation ord mat = Some (g_rs, g_it)"
        "is_partition n m g_rs" "\<forall>r \<in> set g_rs. r \<noteq> [] \<and> edge_connected (set r)"
        using greedy_allocation_partition [OF assms(1) _ _ assms(3)] big by blast
      then have g_valid: "valid_partition n m g_rs"
        by (simp add: valid_partition_def disjoint_cover_iff)
      have "calculate_objective_value mat g_rs = Some (imbalance mat g_rs)"
        by (rule calculate_objective_value_partition [OF assms(1) g_valid])
      moreover have "imbalance mat ?b \<le> imbalance mat g_rs" using i(3) g_valid by blast
      ultimately show ?thesis using g(1) by blast
    qed
    have not_small: "\<not> n * m < 4" using large(3) by simp
    show ?thesis
      using b t(1) vb vt two greedy not_small by simp
  qed
qed

theorem brute_force_below_heuristics_witness:
  "rect [[1, 2], [3, 4]] 2 2 \<and> (2::nat) * 2 \<le> 16 \<and> order_ok remdups \<and>
   (\<exists>b_rs b_count t_rs t_iterations g_rs g_iterations vb vt vg.
      brute_force_allocation [[1, 2], [3, 4]] = Some (b_rs, b_count) \<and>
      two_stage_allocation remdups [[1, 2], [3, 4]] 100 = Some (t_rs, t_iterations) \<and>
      greedy_allocation remdups [[1, 2], [3, 4]] = Some (g_rs, g_iterations) \<and>
      calculate_objective_value [[1, 2], [3, 4]] b_rs = Some vb \<and>
      calculate_objective_value [[1, 2], [3, 4]] t_rs = Some vt \<and>
      calculate_objective_value [[1, 2], [3, 4]] g_rs = Some vg \<and>
      (\<forall>r \<in> set t_rs. r \<noteq> [] \<and> edge_connected (set r)) \<and> vb \<le> vt \<and> vb \<le> vg)"
proof -
  let ?M = "[[1, 2], [3, 4]] :: matrix"
  have r: "rect ?M 2 2" by (simp add: rect_def)
  have t: "two_stage_allocation remdups ?M 100 = Some ([[(0, 0)], [(0, 1)], [(1, 0)], [(1, 1)]], 1)"
    by code_simp
  have c: "\<forall>r \<in> set [[(0, 0)], [(0, 1)], [(1, 0)], [(1, 1)] :: cell list].
             r \<noteq> [] \<and> edge_connected (set r)"
    by (simp add: edge_connected_def)
  show ?thesis
    using brute_force_below_heuristics [OF r _ order_ok_remdups, of 100] r order_ok_remdups t c
    by simp blast
qed

end
